theory Spec2Isabelle
  imports Main "HOL-Library.Monad_Syntax"
begin

section \<open>Python values, objects and exceptions\<close>

text \<open>
  The syntax tree handled by \<^verbatim>\<open>pasta\<close> is a graph of mutable Python objects.
  Object identity matters (\<^verbatim>\<open>ast.AST\<close> defines no \<^verbatim>\<open>__eq__\<close>, so \<^verbatim>\<open>==\<close>,
  \<^verbatim>\<open>in\<close>, \<^verbatim>\<open>list.index\<close>, \<^verbatim>\<open>list.remove\<close> and dictionary keys all compare nodes
  by identity), so every object is named by a reference, a natural number.
\<close>

type_synonym ref = nat

text \<open>The exceptions raised by the modelled code. The last three are the errors the
  spec names for the token stream, whose module is missing.\<close>

datatype error =
    KeyError
  | InvalidAstError
  | TypeError
  | AttributeError
  | ValueError
  | RecursionError
  | NotImplementedError
  | ExhaustedStreamError
  | LexicalMismatchError
  | AmbiguityResolutionError

section \<open>The object store used by the structural edits (\<^verbatim>\<open>pasta/augment/import_utils.py\<close>)\<close>

text \<open>
  An attribute value is \<^verbatim>\<open>None\<close>, a truth value, a string, an integer, a reference to another
  object or a list of values. A list is kept inside the attribute that holds it: the
  parser never shares one list object between two attributes.
\<close>

datatype pyval = PNone | PBool bool | PStr string | PInt int | PRef ref | PList "pyval list"

record pyobj =
  cls :: string
  attrs :: "(string \<times> pyval) list"

type_synonym heap = "pyobj list"

definition obj_at :: "heap \<Rightarrow> ref \<Rightarrow> pyobj option" where
  "obj_at h r = (if r < length h then Some (h ! r) else None)"

text \<open>\<^verbatim>\<open>getattr(obj, a)\<close>; \<^verbatim>\<open>None\<close> of the option stands for a missing attribute
  (\<^verbatim>\<open>hasattr\<close> is false).\<close>

definition getattr :: "heap \<Rightarrow> ref \<Rightarrow> string \<Rightarrow> pyval option" where
  "getattr h r a = (case obj_at h r of None \<Rightarrow> None | Some ob \<Rightarrow> map_of (attrs ob) a)"

fun set_assoc :: "string \<Rightarrow> pyval \<Rightarrow> (string \<times> pyval) list \<Rightarrow> (string \<times> pyval) list" where
  "set_assoc a v [] = [(a, v)]"
| "set_assoc a v ((b, w) # kvs) = (if a = b then (a, v) # kvs else (b, w) # set_assoc a v kvs)"

definition setattr :: "heap \<Rightarrow> ref \<Rightarrow> string \<Rightarrow> pyval \<Rightarrow> heap" where
  "setattr h r a v =
     (if r < length h then h[r := (h ! r)\<lparr>attrs := set_assoc a v (attrs (h ! r))\<rparr>] else h)"

text \<open>\<^verbatim>\<open>xs.index(x)\<close>: the position of the first element equal to \<^verbatim>\<open>x\<close>.\<close>

fun list_index :: "'a list \<Rightarrow> 'a \<Rightarrow> nat option" where
  "list_index [] x = None"
| "list_index (y # ys) x =
     (if y = x then Some 0 else (case list_index ys x of None \<Rightarrow> None | Some i \<Rightarrow> Some (Suc i)))"

text \<open>\<^verbatim>\<open>xs.insert(i, x)\<close> for a non-negative \<^verbatim>\<open>i\<close>; past the end it appends.\<close>

definition list_insert :: "nat \<Rightarrow> 'a \<Rightarrow> 'a list \<Rightarrow> 'a list" where
  "list_insert i x xs = take i xs @ [x] @ drop i xs"

subsection \<open>\<^verbatim>\<open>copy.deepcopy\<close>\<close>

text \<open>
  The library function \<^verbatim>\<open>copy.deepcopy(x, memo)\<close>: atomic values are returned as they
  are; an object already in the memo is answered by its copy; otherwise a new object of
  the same class is created, entered in the memo, and its attributes are copied in turn.
  The first argument bounds the depth of the recursion (Python raises
  \<^verbatim>\<open>RecursionError\<close> when its stack is exhausted).
\<close>

fun deepcopy_val :: "nat \<Rightarrow> pyval \<Rightarrow> (ref \<rightharpoonup> ref) \<times> heap \<Rightarrow> error + (pyval \<times> (ref \<rightharpoonup> ref) \<times> heap)"
and deepcopy_vals :: "nat \<Rightarrow> pyval list \<Rightarrow> (ref \<rightharpoonup> ref) \<times> heap \<Rightarrow> error + (pyval list \<times> (ref \<rightharpoonup> ref) \<times> heap)"
and deepcopy_attrs :: "nat \<Rightarrow> (string \<times> pyval) list \<Rightarrow> (ref \<rightharpoonup> ref) \<times> heap
      \<Rightarrow> error + ((string \<times> pyval) list \<times> (ref \<rightharpoonup> ref) \<times> heap)"
where
  "deepcopy_val fuel PNone mh = Inr (PNone, mh)"
| "deepcopy_val fuel (PBool b) mh = Inr (PBool b, mh)"
| "deepcopy_val fuel (PStr s) mh = Inr (PStr s, mh)"
| "deepcopy_val fuel (PInt i) mh = Inr (PInt i, mh)"
| "deepcopy_val fuel (PList vs) mh =
     (case deepcopy_vals fuel vs mh of
        Inl e \<Rightarrow> Inl e
      | Inr (vs', mh') \<Rightarrow> Inr (PList vs', mh'))"
| "deepcopy_val fuel (PRef r) (memo, h) =
     (case memo r of
        Some r' \<Rightarrow> Inr (PRef r', memo, h)
      | None \<Rightarrow>
          (case obj_at h r of
             None \<Rightarrow> Inr (PRef r, memo, h)
           | Some ob \<Rightarrow>
               (case fuel of
                  0 \<Rightarrow> Inl RecursionError
                | Suc fuel' \<Rightarrow>
                    (let r' = length h;
                         h1 = h @ [\<lparr>cls = cls ob, attrs = []\<rparr>]
                     in case deepcopy_attrs fuel' (attrs ob) (memo(r \<mapsto> r'), h1) of
                          Inl e \<Rightarrow> Inl e
                        | Inr (kvs, memo', h2) \<Rightarrow>
                            Inr (PRef r', memo', h2[r' := \<lparr>cls = cls ob, attrs = kvs\<rparr>])))))"
| "deepcopy_vals fuel [] mh = Inr ([], mh)"
| "deepcopy_vals fuel (v # vs) mh =
     (case deepcopy_val fuel v mh of
        Inl e \<Rightarrow> Inl e
      | Inr (v', mh') \<Rightarrow>
          (case deepcopy_vals fuel vs mh' of
             Inl e \<Rightarrow> Inl e
           | Inr (vs', mh'') \<Rightarrow> Inr (v' # vs', mh'')))"
| "deepcopy_attrs fuel [] mh = Inr ([], mh)"
| "deepcopy_attrs fuel ((a, v) # kvs) mh =
     (case deepcopy_val fuel v mh of
        Inl e \<Rightarrow> Inl e
      | Inr (v', mh') \<Rightarrow>
          (case deepcopy_attrs fuel kvs mh' of
             Inl e \<Rightarrow> Inl e
           | Inr (kvs', mh'') \<Rightarrow> Inr ((a, v') # kvs', mh'')))"

text \<open>\<^verbatim>\<open>copy.deepcopy(node)\<close>: the copy of the object \<^verbatim>\<open>node\<close> and the store that
  holds it. With a memo no object is entered twice, so the number of objects bounds
  the depth.\<close>

definition deepcopy :: "heap \<Rightarrow> ref \<Rightarrow> error + (ref \<times> heap)" where
  "deepcopy h node =
     (case deepcopy_val (Suc (length h)) (PRef node) (Map.empty, h) of
        Inl e \<Rightarrow> Inl e
      | Inr (PRef r', memo, h') \<Rightarrow> Inr (r', h')
      | Inr (_, memo, h') \<Rightarrow> Inl TypeError)"

subsection \<open>\<^verbatim>\<open>split_import\<close>\<close>

text \<open>
  The loop \<^verbatim>\<open>for a in ('body', 'orelse', 'finalbody')\<close> of \<^verbatim>\<open>split_import\<close> with its
  \<^verbatim>\<open>else\<close> branch, for a parent that is an object. \<^verbatim>\<open>node in v\<close> raises \<^verbatim>\<open>TypeError\<close> when \<^verbatim>\<open>v\<close> is not
  a list (a syntax node, \<^verbatim>\<open>None\<close> and an integer are not iterable, and a string only
  accepts a string on the left).
\<close>

fun find_parent_list :: "heap \<Rightarrow> ref \<Rightarrow> ref \<Rightarrow> string list \<Rightarrow> error + (string \<times> pyval list)" where
  "find_parent_list h p node [] = Inl InvalidAstError"
| "find_parent_list h p node (a # as) =
     (case getattr h p a of
        None \<Rightarrow> find_parent_list h p node as
      | Some (PList l) \<Rightarrow>
          (if PRef node \<in> set l then Inr (a, l) else find_parent_list h p node as)
      | Some _ \<Rightarrow> Inl TypeError)"

text \<open>
  \<^verbatim>\<open>split_import(sc, node, alias_to_remove)\<close>. The scope \<^verbatim>\<open>sc\<close> is used through
  \<^verbatim>\<open>sc.parent(node)\<close> only, which is \<^verbatim>\<open>self._parents[node]\<close>, so it is given as the
  dictionary \<^verbatim>\<open>_parents\<close>; the parent recorded for the root of the analysed tree is
  \<^verbatim>\<open>None\<close>, for which the loop finds nothing. The result is the exception or the
  returned node, together with the store as the call leaves it: what was written
  before an exception stays written.
\<close>

definition split_import :: "(ref \<rightharpoonup> ref option) \<Rightarrow> heap \<Rightarrow> ref \<Rightarrow> ref \<Rightarrow> (error + ref) \<times> heap" where
  "split_import parents h node alias_to_remove =
     (case parents node of
        None \<Rightarrow> (Inl KeyError, h)
      | Some None \<Rightarrow> (Inl InvalidAstError, h)
      | Some (Some parent) \<Rightarrow>
          (case find_parent_list h parent node [''body'', ''orelse'', ''finalbody''] of
             Inl e \<Rightarrow> (Inl e, h)
           | Inr (a, parent_list) \<Rightarrow>
               (case list_index parent_list (PRef node) of
                  None \<Rightarrow> (Inl ValueError, h)
                | Some idx \<Rightarrow>
                    (case deepcopy h node of
                       Inl e \<Rightarrow> (Inl e, h)
                     | Inr (new_import, h1) \<Rightarrow>
                         (let h2 = setattr h1 new_import ''names'' (PList [PRef alias_to_remove])
                          in case getattr h2 node ''names'' of
                               Some (PList nms) \<Rightarrow>
                                 (if PRef alias_to_remove \<in> set nms
                                  then
                                    (let h3 = setattr h2 node ''names''
                                                (PList (remove1 (PRef alias_to_remove) nms));
                                         h4 = setattr h3 parent a
                                                (PList (list_insert (idx + 1) (PRef new_import) parent_list))
                                     in (Inr new_import, h4))
                                  else (Inl ValueError, h2))
                             | _ \<Rightarrow> (Inl AttributeError, h2))))))"

subsection \<open>Well-formed stores and the place of a node\<close>

text \<open>The references held by a value.\<close>

fun refs_of :: "pyval \<Rightarrow> ref set" where
  "refs_of PNone = {}"
| "refs_of (PBool b) = {}"
| "refs_of (PStr s) = {}"
| "refs_of (PInt i) = {}"
| "refs_of (PRef r) = {r}"
| "refs_of (PList vs) = (\<Union>v \<in> set vs. refs_of v)"

text \<open>A store is closed when every reference held by one of its objects names an object
  of the store: Python has no dangling references.\<close>

definition closed :: "heap \<Rightarrow> bool" where
  "closed h = (\<forall>ob \<in> set h. \<forall>kv \<in> set (attrs ob). \<forall>r \<in> refs_of (snd kv). r < length h)"

text \<open>The invariant and the progress relation of the copy, used to show that
  \<^verbatim>\<open>deepcopy\<close> returns.\<close>

definition dc_inv :: "heap \<Rightarrow> nat \<Rightarrow> (ref \<rightharpoonup> ref) \<times> heap \<Rightarrow> bool" where
  "dc_inv H0 fuel mh = (closed H0 \<and> (\<exists>ext. snd mh = H0 @ ext) \<and>
      card {r. r < length H0 \<and> fst mh r = None} \<le> fuel)"

definition dc_post :: "(ref \<rightharpoonup> ref) \<times> heap \<Rightarrow> (ref \<rightharpoonup> ref) \<times> heap \<Rightarrow> bool" where
  "dc_post mh mh' = (dom (fst mh) \<subseteq> dom (fst mh') \<and> (\<exists>ext. snd mh' = snd mh @ ext))"

text \<open>The attribute \<^verbatim>\<open>a\<close> of the object \<^verbatim>\<open>p\<close> is missing or holds a list, as the
  statement lists of a syntax node do.\<close>

definition child_list_attr :: "heap \<Rightarrow> ref \<Rightarrow> string \<Rightarrow> bool" where
  "child_list_attr h p a = (case getattr h p a of None \<Rightarrow> True | Some (PList l) \<Rightarrow> True | Some _ \<Rightarrow> False)"

text \<open>\<^verbatim>\<open>hasattr(p, a) and node in getattr(p, a)\<close> for a list-valued attribute.\<close>

definition node_in_list :: "heap \<Rightarrow> ref \<Rightarrow> string \<Rightarrow> ref \<Rightarrow> bool" where
  "node_in_list h p a node = (case getattr h p a of Some (PList l) \<Rightarrow> PRef node \<in> set l | _ \<Rightarrow> False)"

text \<open>
  Two stores for examples. The first is the tree of \<^verbatim>\<open>import aaa, bbb, ccc\<close>: the
  module is object 0, the import statement object 1 and its three aliases objects 2, 3
  and 4. In the second the import statement has been taken out of the body of the module.
\<close>

definition import_heap :: heap where
  "import_heap =
     [\<lparr>cls = ''Module'', attrs = [(''body'', PList [PRef 1])]\<rparr>,
      \<lparr>cls = ''Import'', attrs = [(''names'', PList [PRef 2, PRef 3, PRef 4])]\<rparr>,
      \<lparr>cls = ''alias'', attrs = [(''name'', PStr ''aaa''), (''asname'', PNone)]\<rparr>,
      \<lparr>cls = ''alias'', attrs = [(''name'', PStr ''bbb''), (''asname'', PNone)]\<rparr>,
      \<lparr>cls = ''alias'', attrs = [(''name'', PStr ''ccc''), (''asname'', PNone)]\<rparr>]"

definition detached_heap :: heap where
  "detached_heap =
     [\<lparr>cls = ''Module'', attrs = [(''body'', PList [])]\<rparr>,
      \<lparr>cls = ''Import'', attrs = [(''names'', PList [PRef 2])]\<rparr>,
      \<lparr>cls = ''alias'', attrs = [(''name'', PStr ''aaa''), (''asname'', PNone)]\<rparr>]"

section \<open>Syntax trees\<close>

text \<open>
  The trees walked by the scope analysis and by the annotator are the \<^verbatim>\<open>ast\<close> trees of
  the parser. Each node carries the reference of its object, which is what the
  dictionaries keyed by nodes (\<^verbatim>\<open>_parents\<close>, \<^verbatim>\<open>_nodes_to_names\<close>) and the formatting
  attached to nodes use. The node classes covered are those below, with their fields in
  the order of \<^verbatim>\<open>_fields\<close>; \<^verbatim>\<open>If_stmt\<close> is the class \<^verbatim>\<open>ast.If\<close> and \<^verbatim>\<open>Alias\<close> the class
  \<^verbatim>\<open>ast.alias\<close>. Function parameters are \<^verbatim>\<open>arg\<close> nodes (Python 3) or \<^verbatim>\<open>Name\<close> nodes
  with the context \<^verbatim>\<open>Param\<close> (Python 2); \<^verbatim>\<open>vararg\<close> and \<^verbatim>\<open>kwarg\<close> are nodes or
  \<^verbatim>\<open>None\<close>. The fields of \<^verbatim>\<open>arguments\<close> are \<^verbatim>\<open>posonlyargs\<close>, \<^verbatim>\<open>args\<close>, \<^verbatim>\<open>vararg\<close>,
  \<^verbatim>\<open>kwonlyargs\<close>, \<^verbatim>\<open>kw_defaults\<close> (an entry is \<^verbatim>\<open>None\<close> for a keyword-only parameter
  without default), \<^verbatim>\<open>kwarg\<close> and \<^verbatim>\<open>defaults\<close>; a parser without positional-only or
  keyword-only parameters leaves their lists empty.
\<close>

datatype expr_context = Load ref | Store ref | Del ref | Param ref

datatype alias_node = Alias ref string "string option"

datatype node =
    Module ref "node list"
  | Import ref "alias_node list"
  | ImportFrom ref "string option" "alias_node list" int
  | Name ref string expr_context
  | Num ref int
  | Attribute ref node string expr_context
  | Expr ref node
  | Assign ref "node list" node
  | FunctionDef ref string node "node list" "node list" "node option"
  | arguments ref "node list" "node list" "node option" "node list" "node option list" "node option" "node list"
  | arg ref string "node option"
  | ClassDef ref string "node list" "node list" "node list"
  | If_stmt ref node "node list" "node list"
  | Pass ref
  | Exec ref node "node option" "node option"

fun ref_of :: "node \<Rightarrow> ref" where
  "ref_of (Module r body) = r"
| "ref_of (Import r nms) = r"
| "ref_of (ImportFrom r module nms level) = r"
| "ref_of (Name r i ctx) = r"
| "ref_of (Num r n) = r"
| "ref_of (Attribute r val attr ctx) = r"
| "ref_of (Expr r val) = r"
| "ref_of (Assign r targets val) = r"
| "ref_of (FunctionDef r nm args body decorator_list returns) = r"
| "ref_of (arguments r posonlyargs args vararg kwonlyargs kw_defaults kwarg defaults) = r"
| "ref_of (arg r a annotation) = r"
| "ref_of (ClassDef r nm bases body decorator_list) = r"
| "ref_of (If_stmt r test body orelse) = r"
| "ref_of (Pass r) = r"
| "ref_of (Exec r body globals locals) = r"

fun ctx_ref :: "expr_context \<Rightarrow> ref" where
  "ctx_ref (Load r) = r"
| "ctx_ref (Store r) = r"
| "ctx_ref (Del r) = r"
| "ctx_ref (Param r) = r"

fun alias_ref :: "alias_node \<Rightarrow> ref" where
  "alias_ref (Alias r nm asname) = r"

section \<open>Scope analysis (\<^verbatim>\<open>pasta/base/scope.py\<close>)\<close>

subsection \<open>Strings\<close>

text \<open>\<^verbatim>\<open>s.split('.')\<close> and \<^verbatim>\<open>'.'.join(parts)\<close>.\<close>

fun split_dot :: "string \<Rightarrow> string list" where
  "split_dot [] = [[]]"
| "split_dot (c # cs) =
     (if c = CHR ''.'' then [] # split_dot cs
      else (case split_dot cs of [] \<Rightarrow> [[c]] | w # ws \<Rightarrow> (c # w) # ws))"

fun join_dot :: "string list \<Rightarrow> string" where
  "join_dot [] = []"
| "join_dot [p] = p"
| "join_dot (p # q # ps) = p @ ''.'' @ join_dot (q # ps)"

subsection \<open>The class \<^verbatim>\<open>Name\<close>\<close>

text \<open>
  \<^verbatim>\<open>Name\<close> objects are mutable and shared between the scopes and the table
  \<^verbatim>\<open>_nodes_to_names\<close>, so they live in a store of their own and are named by their
  position in it. The nodes a \<^verbatim>\<open>Name\<close> holds are kept as their references.
\<close>

record name_obj =
  name_id :: string
  name_definition :: "ref option"
  name_reads :: "ref list"
  name_attrs :: "string \<rightharpoonup> nat"

definition new_Name :: "string \<Rightarrow> name_obj" where
  "new_Name i = \<lparr>name_id = i, name_definition = None, name_reads = [], name_attrs = Map.empty\<rparr>"

definition Name_add_reference :: "nat \<Rightarrow> ref \<Rightarrow> name_obj list \<Rightarrow> name_obj list" where
  "Name_add_reference n nd hp = hp[n := (hp ! n)\<lparr>name_reads := name_reads (hp ! n) @ [nd]\<rparr>]"

text \<open>\<^verbatim>\<open>Name.define\<close>; a node object is always true, so \<^verbatim>\<open>if self.definition\<close> asks
  whether a definition has been recorded.\<close>

definition Name_define :: "nat \<Rightarrow> ref \<Rightarrow> name_obj list \<Rightarrow> name_obj list" where
  "Name_define n nd hp =
     (if name_definition (hp ! n) \<noteq> None
      then hp[n := (hp ! n)\<lparr>name_reads := name_reads (hp ! n) @ [nd]\<rparr>]
      else hp[n := (hp ! n)\<lparr>name_definition := Some nd\<rparr>])"

definition Name_lookup_name :: "nat \<Rightarrow> string \<Rightarrow> name_obj list \<Rightarrow> nat \<times> name_obj list" where
  "Name_lookup_name n nm hp =
     (case name_attrs (hp ! n) nm of
        Some m \<Rightarrow> (m, hp)
      | None \<Rightarrow>
          (length hp,
           hp[n := (hp ! n)\<lparr>name_attrs := (name_attrs (hp ! n))(nm \<mapsto> length hp)\<rparr>] @ [new_Name nm]))"

subsection \<open>The classes \<^verbatim>\<open>Scope\<close> and \<^verbatim>\<open>RootScope\<close>\<close>

text \<open>
  A scope holds its dictionary \<^verbatim>\<open>names\<close> and its parent scope; the root scope has no
  parent and holds the tables \<^verbatim>\<open>external_references\<close>, \<^verbatim>\<open>_parents\<close> and
  \<^verbatim>\<open>_nodes_to_names\<close>. The visitor reaches every scope through \<^verbatim>\<open>self.scope\<close> and its
  chain of parents, and \<^verbatim>\<open>self.root_scope\<close> is the end of that chain, so a scope is
  given with its chain and a change to a parent is a change inside the chain.
\<close>

datatype scope =
    RootScope (names: "string \<rightharpoonup> nat") (external_references: "string \<rightharpoonup> ref list")
              (node_parents: "ref \<rightharpoonup> ref option") (nodes_to_names: "ref \<rightharpoonup> nat")
  | Scope (names: "string \<rightharpoonup> nat") (parent_scope: scope)

fun get_root_scope :: "scope \<Rightarrow> scope" where
  "get_root_scope (RootScope ns ext par ntn) = RootScope ns ext par ntn"
| "get_root_scope (Scope ns p) = get_root_scope p"

text \<open>\<^verbatim>\<open>Scope.define_name\<close>, on the scope itself.\<close>

fun set_names :: "(string \<rightharpoonup> nat) \<Rightarrow> scope \<Rightarrow> scope" where
  "set_names ns' (RootScope ns ext par ntn) = RootScope ns' ext par ntn"
| "set_names ns' (Scope ns p) = Scope ns' p"

definition define_name :: "string \<Rightarrow> ref \<Rightarrow> scope \<Rightarrow> name_obj list \<Rightarrow> nat \<times> scope \<times> name_obj list" where
  "define_name nm nd sc hp =
     (case names sc nm of
        Some n \<Rightarrow> (n, sc, Name_define n nd hp)
      | None \<Rightarrow>
          (let n = length hp
           in (n, set_names ((names sc)(nm \<mapsto> n)) sc, Name_define n nd (hp @ [new_Name nm]))))"

text \<open>\<^verbatim>\<open>Scope.lookup_name\<close>: the scope's own dictionary, then the parent's; the scope
  without a parent enters a new \<^verbatim>\<open>Name\<close> in its dictionary.\<close>

fun lookup_name :: "string \<Rightarrow> scope \<Rightarrow> name_obj list \<Rightarrow> nat \<times> scope \<times> name_obj list" where
  "lookup_name nm (RootScope ns ext par ntn) hp =
     (case ns nm of
        Some n \<Rightarrow> (n, RootScope ns ext par ntn, hp)
      | None \<Rightarrow> (length hp, RootScope (ns(nm \<mapsto> length hp)) ext par ntn, hp @ [new_Name nm]))"
| "lookup_name nm (Scope ns p) hp =
     (case ns nm of
        Some n \<Rightarrow> (n, Scope ns p, hp)
      | None \<Rightarrow> (case lookup_name nm p hp of (n, p', hp') \<Rightarrow> (n, Scope ns p', hp')))"

text \<open>\<^verbatim>\<open>RootScope.add_external_reference\<close>, which \<^verbatim>\<open>Scope.add_external_reference\<close>
  reaches through the parents.\<close>

definition names_to_add :: "string \<Rightarrow> bool \<Rightarrow> string list" where
  "names_to_add nm packages =
     [nm] @ (if packages
             then map (\<lambda>i. join_dot (take i (split_dot nm))) [1 ..< length (split_dot nm)]
             else [])"

definition add_reference_entry :: "ref \<Rightarrow> string \<Rightarrow> (string \<rightharpoonup> ref list) \<Rightarrow> (string \<rightharpoonup> ref list)" where
  "add_reference_entry nd n ext =
     (case ext n of Some l \<Rightarrow> ext(n \<mapsto> l @ [nd]) | None \<Rightarrow> ext(n \<mapsto> [nd]))"

fun add_external_reference :: "string \<Rightarrow> ref \<Rightarrow> bool \<Rightarrow> scope \<Rightarrow> scope" where
  "add_external_reference nm nd packages (RootScope ns ext par ntn) =
     RootScope ns (fold (add_reference_entry nd) (names_to_add nm packages) ext) par ntn"
| "add_external_reference nm nd packages (Scope ns p) =
     Scope ns (add_external_reference nm nd packages p)"

text \<open>The methods of the root scope, called on \<^verbatim>\<open>self.root_scope\<close>.\<close>

fun set_parent :: "ref \<Rightarrow> ref option \<Rightarrow> scope \<Rightarrow> scope" where
  "set_parent nd parent (RootScope ns ext par ntn) = RootScope ns ext (par(nd \<mapsto> parent)) ntn"
| "set_parent nd parent (Scope ns p) = Scope ns (set_parent nd parent p)"

fun set_name_for_node :: "ref \<Rightarrow> nat \<Rightarrow> scope \<Rightarrow> scope" where
  "set_name_for_node nd n (RootScope ns ext par ntn) = RootScope ns ext par (ntn(nd \<mapsto> n))"
| "set_name_for_node nd n (Scope ns p) = Scope ns (set_name_for_node nd n p)"

definition get_name_for_node :: "ref \<Rightarrow> scope \<Rightarrow> nat option" where
  "get_name_for_node nd sc = nodes_to_names (get_root_scope sc) nd"

subsection \<open>The class \<^verbatim>\<open>ScopeVisitor\<close>\<close>

record visitor =
  cur_scope :: scope
  names_heap :: "name_obj list"
  cur_parent :: "ref option"

text \<open>\<^verbatim>\<open>self.scope = Scope(self.scope)\<close> and \<^verbatim>\<open>self.scope = self.scope.parent_scope\<close>.
  The second is only run on a scope the first has made.\<close>

definition push_scope :: "visitor \<Rightarrow> visitor" where
  "push_scope v = v\<lparr>cur_scope := Scope Map.empty (cur_scope v)\<rparr>"

fun pop_scope_of :: "scope \<Rightarrow> scope" where
  "pop_scope_of (Scope ns p) = p"
| "pop_scope_of (RootScope ns ext par ntn) = RootScope ns ext par ntn"

definition pop_scope :: "visitor \<Rightarrow> visitor" where
  "pop_scope v = v\<lparr>cur_scope := pop_scope_of (cur_scope v)\<rparr>"

definition v_define_name :: "string \<Rightarrow> ref \<Rightarrow> visitor \<Rightarrow> visitor" where
  "v_define_name nm nd v =
     (case define_name nm nd (cur_scope v) (names_heap v) of
        (n, sc, hp) \<Rightarrow> v\<lparr>cur_scope := sc, names_heap := hp\<rparr>)"

text \<open>The loop body of \<^verbatim>\<open>visit_Import\<close>. An alias is not aliased when \<^verbatim>\<open>asname\<close> is
  \<^verbatim>\<open>None\<close> or empty.\<close>

fun define_parts :: "string list \<Rightarrow> ref \<Rightarrow> nat \<Rightarrow> name_obj list \<Rightarrow> name_obj list" where
  "define_parts [] nd cur_name hp = hp"
| "define_parts (part # parts) nd cur_name hp =
     (case Name_lookup_name cur_name part hp of
        (n, hp') \<Rightarrow> define_parts parts nd n (Name_define n nd hp'))"

fun import_alias :: "alias_node \<Rightarrow> visitor \<Rightarrow> visitor" where
  "import_alias (Alias r nm asname) v =
     (let v1 = v\<lparr>cur_scope := add_external_reference nm r True (cur_scope v)\<rparr>
      in if asname = None \<or> asname = Some []
         then (case split_dot nm of
                 [] \<Rightarrow> v1
               | p0 # parts \<Rightarrow>
                   (case define_name p0 r (cur_scope v1) (names_heap v1) of
                      (cur_name, sc, hp) \<Rightarrow>
                        v1\<lparr>cur_scope := sc, names_heap := define_parts parts r cur_name hp\<rparr>))
         else (case asname of None \<Rightarrow> v1 | Some a \<Rightarrow> v_define_name a r v1))"

text \<open>The part of \<^verbatim>\<open>visit_ImportFrom\<close> before \<^verbatim>\<open>generic_visit\<close>; \<^verbatim>\<open>if node.module\<close>
  holds for a module that is neither \<^verbatim>\<open>None\<close> nor empty.\<close>

fun importfrom_alias :: "string option \<Rightarrow> alias_node \<Rightarrow> visitor \<Rightarrow> visitor" where
  "importfrom_alias module (Alias r nm asname) v =
     (let v1 = v_define_name (case asname of None \<Rightarrow> nm | Some a \<Rightarrow> if a = [] then nm else a) r v
      in case module of
           None \<Rightarrow> v1
         | Some m \<Rightarrow>
             (if m = [] then v1
              else v1\<lparr>cur_scope := add_external_reference (m @ ''.'' @ nm) r False (cur_scope v1)\<rparr>))"

definition importfrom_module :: "ref \<Rightarrow> string option \<Rightarrow> visitor \<Rightarrow> visitor" where
  "importfrom_module r module v =
     (case module of
        None \<Rightarrow> v
      | Some m \<Rightarrow>
          (if m = [] then v
           else v\<lparr>cur_scope := add_external_reference m r True (cur_scope v)\<rparr>))"

text \<open>\<^verbatim>\<open>ScopeVisitor.visit\<close> on a node without children that are nodes: an alias, or
  the context object of a \<^verbatim>\<open>Name\<close> or an \<^verbatim>\<open>Attribute\<close>. It records the parent; the
  current parent is set and restored around a \<^verbatim>\<open>generic_visit\<close> that finds nothing.\<close>

definition visit_leaf :: "ref \<Rightarrow> visitor \<Rightarrow> visitor" where
  "visit_leaf r v = v\<lparr>cur_scope := set_parent r (cur_parent v) (cur_scope v)\<rparr>"

text \<open>The part of \<^verbatim>\<open>visit_Name\<close> before \<^verbatim>\<open>generic_visit\<close>.\<close>

fun name_effect :: "ref \<Rightarrow> string \<Rightarrow> expr_context \<Rightarrow> visitor \<Rightarrow> visitor" where
  "name_effect r i (Store c) v = v_define_name i r v"
| "name_effect r i (Param c) v = v_define_name i r v"
| "name_effect r i (Load c) v =
     (case lookup_name i (cur_scope v) (names_heap v) of
        (n, sc, hp) \<Rightarrow>
          (case lookup_name i sc (Name_add_reference n r hp) of
             (n', sc', hp') \<Rightarrow> v\<lparr>cur_scope := set_name_for_node r n' sc', names_heap := hp'\<rparr>))"
| "name_effect r i (Del c) v = v"

text \<open>The part of \<^verbatim>\<open>visit_Attribute\<close> after \<^verbatim>\<open>generic_visit\<close>.\<close>

definition attribute_effect :: "ref \<Rightarrow> ref \<Rightarrow> string \<Rightarrow> visitor \<Rightarrow> visitor" where
  "attribute_effect r value_ref attr v =
     (case get_name_for_node value_ref (cur_scope v) of
        None \<Rightarrow> v
      | Some node_value_name \<Rightarrow>
          (case Name_lookup_name node_value_name attr (names_heap v) of
             (node_name, hp) \<Rightarrow>
               v\<lparr>cur_scope := set_name_for_node r node_name (cur_scope v),
                 names_heap := Name_add_reference node_name r hp\<rparr>))"

text \<open>
  \<^verbatim>\<open>ScopeVisitor.visit\<close> records the parent, makes the node the current parent, runs
  the method of the node's class (\<^verbatim>\<open>visit_class\<close>: the \<^verbatim>\<open>visit_\<close> method of the class
  when \<^verbatim>\<open>ScopeVisitor\<close> has one, \<^verbatim>\<open>generic_visit\<close> otherwise, which visits the child
  nodes field by field) and restores the current parent. \<^verbatim>\<open>visit_list\<close> and
  \<^verbatim>\<open>visit_opt\<close> are the visits of a list field and of a field that may be \<^verbatim>\<open>None\<close>.
  \<^verbatim>\<open>visit_arguments\<close> visits the fields \<^verbatim>\<open>defaults\<close>, \<^verbatim>\<open>args\<close>, \<^verbatim>\<open>vararg\<close> and
  \<^verbatim>\<open>kwarg\<close> and no other: the positional-only and the keyword-only parameters and
  the defaults of the latter are not visited.
\<close>

fun visit :: "node \<Rightarrow> visitor \<Rightarrow> visitor"
and visit_class :: "node \<Rightarrow> visitor \<Rightarrow> visitor"
and visit_list :: "node list \<Rightarrow> visitor \<Rightarrow> visitor"
and visit_opt :: "node option \<Rightarrow> visitor \<Rightarrow> visitor"
where
  "visit nd v =
     (let v1 = v\<lparr>cur_scope := set_parent (ref_of nd) (cur_parent v) (cur_scope v)\<rparr>;
          tmp = cur_parent v1;
          v2 = visit_class nd (v1\<lparr>cur_parent := Some (ref_of nd)\<rparr>)
      in v2\<lparr>cur_parent := tmp\<rparr>)"
| "visit_class (Module r body) v = visit_list body v"
| "visit_class (Import r nms) v =
     fold (\<lambda>a. visit_leaf (alias_ref a)) nms (fold import_alias nms v)"
| "visit_class (ImportFrom r module nms level) v =
     fold (\<lambda>a. visit_leaf (alias_ref a)) nms
       (fold (importfrom_alias module) nms (importfrom_module r module v))"
| "visit_class (Name r i ctx) v = visit_leaf (ctx_ref ctx) (name_effect r i ctx v)"
| "visit_class (Num r n) v = v"
| "visit_class (Attribute r val attr ctx) v =
     attribute_effect r (ref_of val) attr (visit_leaf (ctx_ref ctx) (visit val v))"
| "visit_class (Expr r val) v = visit val v"
| "visit_class (Assign r targets val) v = visit val (visit_list targets v)"
| "visit_class (FunctionDef r nm args body decorator_list returns) v =
     pop_scope
       (visit_list body
         (visit_opt returns
           (visit args
             (visit_list decorator_list
               (push_scope (v_define_name nm r v))))))"
| "visit_class (arguments r posonlyargs args vararg kwonlyargs kw_defaults kwarg defaults) v =
     visit_opt kwarg (visit_opt vararg (visit_list args (visit_list defaults v)))"
| "visit_class (arg r a annotation) v = visit_opt annotation (v_define_name a r v)"
| "visit_class (ClassDef r nm bases body decorator_list) v =
     pop_scope
       (visit_list decorator_list
         (visit_list body
           (visit_list bases
             (push_scope (v_define_name nm r v)))))"
| "visit_class (If_stmt r test body orelse) v =
     visit_list orelse (visit_list body (visit test v))"
| "visit_class (Pass r) v = v"
| "visit_class (Exec r body globals locals) v =
     visit_opt locals (visit_opt globals (visit body v))"
| "visit_list [] v = v"
| "visit_list (nd # nds) v = visit_list nds (visit nd v)"
| "visit_opt None v = v"
| "visit_opt (Some nd) v = visit nd v"

text \<open>\<^verbatim>\<open>analyze(tree)\<close>: the scope the visitor ends with (the root scope), given with
  the store of the \<^verbatim>\<open>Name\<close> objects it refers to.\<close>

definition new_ScopeVisitor :: visitor where
  "new_ScopeVisitor =
     \<lparr>cur_scope = RootScope Map.empty Map.empty Map.empty Map.empty, names_heap = [], cur_parent = None\<rparr>"

definition analyze :: "node \<Rightarrow> scope \<times> name_obj list" where
  "analyze tree = (let v = visit tree new_ScopeVisitor in (cur_scope v, names_heap v))"


subsection \<open>Notions used to state the properties of the scopes\<close>

text \<open>The identifier is defined in the scope or in one of its enclosing scopes, the
  root included.\<close>

fun defined_in :: "string \<Rightarrow> scope \<Rightarrow> bool" where
  "defined_in nm (RootScope ns ext par ntn) = (ns nm \<noteq> None)"
| "defined_in nm (Scope ns p) = (ns nm \<noteq> None \<or> defined_in nm p)"

text \<open>The chain of scopes with the identifier bound to the \<^verbatim>\<open>Name\<close> \<^verbatim>\<open>n\<close> in the root
  scope, and nothing else changed.\<close>

fun define_in_root :: "string \<Rightarrow> nat \<Rightarrow> scope \<Rightarrow> scope" where
  "define_in_root nm n (RootScope ns ext par ntn) = RootScope (ns(nm \<mapsto> n)) ext par ntn"
| "define_in_root nm n (Scope ns p) = Scope ns (define_in_root nm n p)"

text \<open>Every \<^verbatim>\<open>Name\<close> bound in the chain of scopes is an object of the store.\<close>

fun names_ok :: "scope \<Rightarrow> name_obj list \<Rightarrow> bool" where
  "names_ok (RootScope ns ext par ntn) hp = (\<forall>n \<in> ran ns. n < length hp)"
| "names_ok (Scope ns p) hp = ((\<forall>n \<in> ran ns. n < length hp) \<and> names_ok p hp)"

definition shadow_scope :: scope where
  "shadow_scope = Scope Map.empty (RootScope Map.empty Map.empty Map.empty Map.empty)"

text \<open>The nodes of a tree: the node itself and the nodes of its child fields. Of an
  \<^verbatim>\<open>arguments\<close> node these are the fields \<^verbatim>\<open>defaults\<close>, \<^verbatim>\<open>args\<close>, \<^verbatim>\<open>vararg\<close> and
  \<^verbatim>\<open>kwarg\<close>, the ones the traversals of this repository go through; the other fields
  hold parameters and default values, never a statement.\<close>

fun nodes_of :: "node \<Rightarrow> node set"
and nodes_of_list :: "node list \<Rightarrow> node set"
and nodes_of_opt :: "node option \<Rightarrow> node set"
where
  "nodes_of (Module r body) = insert (Module r body) (nodes_of_list body)"
| "nodes_of (Import r nms) = {Import r nms}"
| "nodes_of (ImportFrom r module nms level) = {ImportFrom r module nms level}"
| "nodes_of (Name r i ctx) = {Name r i ctx}"
| "nodes_of (Num r n) = {Num r n}"
| "nodes_of (Attribute r val attr ctx) = insert (Attribute r val attr ctx) (nodes_of val)"
| "nodes_of (Expr r val) = insert (Expr r val) (nodes_of val)"
| "nodes_of (Assign r targets val) = insert (Assign r targets val) (nodes_of_list targets \<union> nodes_of val)"
| "nodes_of (FunctionDef r nm args body decorator_list returns) =
     insert (FunctionDef r nm args body decorator_list returns)
       (nodes_of args \<union> nodes_of_list body \<union> nodes_of_list decorator_list \<union> nodes_of_opt returns)"
| "nodes_of (arguments r posonlyargs args vararg kwonlyargs kw_defaults kwarg defaults) =
     insert (arguments r posonlyargs args vararg kwonlyargs kw_defaults kwarg defaults)
       (nodes_of_list args \<union> nodes_of_opt vararg \<union> nodes_of_opt kwarg \<union> nodes_of_list defaults)"
| "nodes_of (arg r a annotation) = insert (arg r a annotation) (nodes_of_opt annotation)"
| "nodes_of (ClassDef r nm bases body decorator_list) =
     insert (ClassDef r nm bases body decorator_list)
       (nodes_of_list bases \<union> nodes_of_list body \<union> nodes_of_list decorator_list)"
| "nodes_of (If_stmt r test body orelse) =
     insert (If_stmt r test body orelse) (nodes_of test \<union> nodes_of_list body \<union> nodes_of_list orelse)"
| "nodes_of (Pass r) = {Pass r}"
| "nodes_of (Exec r body globals locals) =
     insert (Exec r body globals locals) (nodes_of body \<union> nodes_of_opt globals \<union> nodes_of_opt locals)"
| "nodes_of_list [] = {}"
| "nodes_of_list (nd # nds) = nodes_of nd \<union> nodes_of_list nds"
| "nodes_of_opt None = {}"
| "nodes_of_opt (Some nd) = nodes_of nd"

text \<open>The external-reference table of the root of a chain of scopes, and the nodes it
  holds under a key.\<close>

definition ext_of :: "scope \<Rightarrow> string \<rightharpoonup> ref list" where
  "ext_of sc = external_references (get_root_scope sc)"

definition refs_at :: "(string \<rightharpoonup> ref list) \<Rightarrow> string \<Rightarrow> ref set" where
  "refs_at ext k = (case ext k of None \<Rightarrow> {} | Some l \<Rightarrow> set l)"

definition ext_refs :: "visitor \<Rightarrow> string \<Rightarrow> ref set" where
  "ext_refs v k = refs_at (ext_of (cur_scope v)) k"

text \<open>The number of scopes between a scope and the root.\<close>

fun depth :: "scope \<Rightarrow> nat" where
  "depth (RootScope ns ext par ntn) = 0"
| "depth (Scope ns p) = Suc (depth p)"

text \<open>The tree of \<^verbatim>\<open>import aaa.bbb\<close>: the module is object 0, the import statement
  object 1 and its alias object 2.\<close>

definition import_tree :: node where
  "import_tree = Module 0 [Import 1 [Alias 2 ''aaa.bbb'' None]]"

text \<open>
  The tree of \<^verbatim>\<open>x = 1; def f(x): x; x\<close>: the target of the assignment is the node 10,
  the parameter the node 9, the read in the body the node 11 and the read after the
  function the node 12. And the tree of \<^verbatim>\<open>x = 1; def f(*, x): x; x\<close>, where \<^verbatim>\<open>x\<close> is a
  keyword-only parameter without default.
\<close>

definition shadow_tree :: node where
  "shadow_tree =
     Module 0
       [Assign 1 [Name 10 ''x'' (Store 2)] (Num 3 1),
        FunctionDef 4 ''f'' (arguments 5 [] [arg 9 ''x'' None] None [] [] None [])
          [Expr 6 (Name 11 ''x'' (Load 7))] [] None,
        Expr 8 (Name 12 ''x'' (Load 7))]"

definition kwonly_tree :: node where
  "kwonly_tree =
     Module 0
       [Assign 1 [Name 10 ''x'' (Store 2)] (Num 3 1),
        FunctionDef 4 ''f'' (arguments 5 [] [] None [arg 9 ''x'' None] [None] None [])
          [Expr 6 (Name 11 ''x'' (Load 7))] [] None,
        Expr 8 (Name 12 ''x'' (Load 7))]"

subsection \<open>Notions used to state the shadowing of names\<close>

text \<open>
  The nodes in the scope where a node is: the node and the nodes below it that are
  reached without entering a function or a class (\<^verbatim>\<open>visit_FunctionDef\<close> and
  \<^verbatim>\<open>visit_ClassDef\<close> visit every child in a scope of their own).
\<close>

fun direct :: "node \<Rightarrow> node set"
and direct_list :: "node list \<Rightarrow> node set"
and direct_opt :: "node option \<Rightarrow> node set"
where
  "direct (Module r body) = insert (Module r body) (direct_list body)"
| "direct (Import r nms) = {Import r nms}"
| "direct (ImportFrom r module nms level) = {ImportFrom r module nms level}"
| "direct (Name r i ctx) = {Name r i ctx}"
| "direct (Num r n) = {Num r n}"
| "direct (Attribute r val attr ctx) = insert (Attribute r val attr ctx) (direct val)"
| "direct (Expr r val) = insert (Expr r val) (direct val)"
| "direct (Assign r targets val) = insert (Assign r targets val) (direct_list targets \<union> direct val)"
| "direct (FunctionDef r nm args body decorator_list returns) =
     {FunctionDef r nm args body decorator_list returns}"
| "direct (arguments r posonlyargs args vararg kwonlyargs kw_defaults kwarg defaults) =
     insert (arguments r posonlyargs args vararg kwonlyargs kw_defaults kwarg defaults)
       (direct_list args \<union> direct_opt vararg \<union> direct_opt kwarg \<union> direct_list defaults)"
| "direct (arg r a annotation) = insert (arg r a annotation) (direct_opt annotation)"
| "direct (ClassDef r nm bases body decorator_list) = {ClassDef r nm bases body decorator_list}"
| "direct (If_stmt r test body orelse) =
     insert (If_stmt r test body orelse) (direct test \<union> direct_list body \<union> direct_list orelse)"
| "direct (Pass r) = {Pass r}"
| "direct (Exec r body globals locals) =
     insert (Exec r body globals locals) (direct body \<union> direct_opt globals \<union> direct_opt locals)"
| "direct_list [] = {}"
| "direct_list (nd # nds) = direct nd \<union> direct_list nds"
| "direct_opt None = {}"
| "direct_opt (Some nd) = direct nd"

text \<open>The node objects of a tree (the nodes that \<^verbatim>\<open>nodes_of\<close> collects), as the list of
  their references. In a tree of the parser every node is an object of its own: the
  list has no repetition.\<close>

fun refs :: "node \<Rightarrow> ref list"
and refs_list :: "node list \<Rightarrow> ref list"
and refs_opt :: "node option \<Rightarrow> ref list"
where
  "refs (Module r body) = r # refs_list body"
| "refs (Import r nms) = [r]"
| "refs (ImportFrom r module nms level) = [r]"
| "refs (Name r i ctx) = [r]"
| "refs (Num r n) = [r]"
| "refs (Attribute r val attr ctx) = r # refs val"
| "refs (Expr r val) = r # refs val"
| "refs (Assign r targets val) = r # refs_list targets @ refs val"
| "refs (FunctionDef r nm args body decorator_list returns) =
     r # refs_list decorator_list @ refs args @ refs_opt returns @ refs_list body"
| "refs (arguments r posonlyargs args vararg kwonlyargs kw_defaults kwarg defaults) =
     r # refs_list defaults @ refs_list args @ refs_opt vararg @ refs_opt kwarg"
| "refs (arg r a annotation) = r # refs_opt annotation"
| "refs (ClassDef r nm bases body decorator_list) =
     r # refs_list bases @ refs_list body @ refs_list decorator_list"
| "refs (If_stmt r test body orelse) = r # refs test @ refs_list body @ refs_list orelse"
| "refs (Pass r) = [r]"
| "refs (Exec r body globals locals) = r # refs body @ refs_opt globals @ refs_opt locals"
| "refs_list [] = []"
| "refs_list (nd # nds) = refs nd @ refs_list nds"
| "refs_opt None = []"
| "refs_opt (Some nd) = refs nd"

text \<open>The table \<^verbatim>\<open>_nodes_to_names\<close> of the root of a chain of scopes.\<close>

definition ntn_of :: "scope \<Rightarrow> ref \<rightharpoonup> nat" where
  "ntn_of sc = nodes_to_names (get_root_scope sc)"

text \<open>The node has been recorded on the \<^verbatim>\<open>Name\<close> \<^verbatim>\<open>n\<close> by \<^verbatim>\<open>Name.define\<close>, which keeps
  the first node it is given as the definition and appends the later ones to the
  reads.\<close>

definition recorded :: "ref \<Rightarrow> nat \<Rightarrow> name_obj list \<Rightarrow> bool" where
  "recorded nd n hp =
     (n < length hp \<and> (name_definition (hp ! n) = Some nd \<or> nd \<in> set (name_reads (hp ! n))))"

text \<open>The \<^verbatim>\<open>Name\<close> \<^verbatim>\<open>n\<close> is bound to an identifier in a scope of the chain.\<close>

fun bound_in :: "nat \<Rightarrow> scope \<Rightarrow> bool" where
  "bound_in n (RootScope ns ext par ntn) = (n \<in> ran ns)"
| "bound_in n (Scope ns p) = (n \<in> ran ns \<or> bound_in n p)"

text \<open>Every \<^verbatim>\<open>Name\<close> bound in the chain is an object of the store and has the identifier
  it is bound to, and no \<^verbatim>\<open>Name\<close> is bound in two scopes of the chain.\<close>

fun inv_sc :: "scope \<Rightarrow> name_obj list \<Rightarrow> bool" where
  "inv_sc (RootScope ns ext par ntn) hp =
     (\<forall>x n. ns x = Some n \<longrightarrow> n < length hp \<and> name_id (hp ! n) = x)"
| "inv_sc (Scope ns p) hp =
     ((\<forall>x n. ns x = Some n \<longrightarrow> n < length hp \<and> name_id (hp ! n) = x \<and> \<not> bound_in n p) \<and>
      inv_sc p hp)"

text \<open>The chain of scopes has grown: the same scopes, each binding what it bound
  before, to the same \<^verbatim>\<open>Name\<close>.\<close>

fun scope_le :: "scope \<Rightarrow> scope \<Rightarrow> bool" where
  "scope_le (RootScope ns ext par ntn) (RootScope ns' ext' par' ntn') = (ns \<subseteq>\<^sub>m ns')"
| "scope_le (Scope ns p) (Scope ns' p') = (ns \<subseteq>\<^sub>m ns' \<and> scope_le p p')"
| "scope_le (RootScope ns ext par ntn) (Scope ns' p') = False"
| "scope_le (Scope ns p) (RootScope ns' ext' par' ntn') = False"

text \<open>The store has grown: the objects it had are still there, with their identifier,
  with the definition they had and with the reads they had.\<close>

definition heap_le :: "name_obj list \<Rightarrow> name_obj list \<Rightarrow> bool" where
  "heap_le hp hp' =
     (length hp \<le> length hp' \<and>
      (\<forall>n < length hp.
         name_id (hp' ! n) = name_id (hp ! n) \<and>
         (name_definition (hp ! n) \<noteq> None \<longrightarrow> name_definition (hp' ! n) = name_definition (hp ! n)) \<and>
         set (name_reads (hp ! n)) \<subseteq> set (name_reads (hp' ! n))))"

text \<open>A step of the analysis from the scopes \<^verbatim>\<open>sc\<close> and the store \<^verbatim>\<open>hp\<close>: scopes and
  store grow, a \<^verbatim>\<open>Name\<close> newly bound is a new object, and the invariant is kept.\<close>

definition grows :: "scope \<Rightarrow> name_obj list \<Rightarrow> scope \<Rightarrow> name_obj list \<Rightarrow> bool" where
  "grows sc hp sc' hp' =
     (scope_le sc sc' \<and> heap_le hp hp' \<and>
      (\<forall>m. bound_in m sc' \<longrightarrow> bound_in m sc \<or> length hp \<le> m) \<and>
      (inv_sc sc hp \<longrightarrow> inv_sc sc' hp'))"

definition good :: "visitor \<Rightarrow> visitor \<Rightarrow> bool" where
  "good v v' = grows (cur_scope v) (names_heap v) (cur_scope v') (names_heap v')"

section \<open>The annotator (\<^verbatim>\<open>pasta/base/annotate.py\<close>)\<close>

subsection \<open>The token stream\<close>

text \<open>
  Modelled from the spec: the module \<^verbatim>\<open>pasta/base/token_generator.py\<close> is missing. A
  token is a kind and its literal text (the source span is not used by the annotator
  but in an error message). The stream is a forward-only cursor, kept as the tokens not
  yet consumed, and a counter of the open brackets. Spaces, line continuations and
  indentation are tokens of the kind \<^verbatim>\<open>WHITESPACE\<close>.
\<close>

datatype token_type = NAME | NUMBER | STRING | OP | COMMENT | WHITESPACE | NEWLINE | ENDMARKER

record token =
  tok_type :: token_type
  tok_text :: string

record token_generator =
  remaining :: "token list"
  parens :: nat

text \<open>Modelled from the spec: \<^verbatim>\<open>next()\<close> returns the next token and advances, and fails
  when none remains.\<close>

definition tokens_next :: "token_generator \<Rightarrow> (error + token) \<times> token_generator" where
  "tokens_next tg =
     (case remaining tg of
        [] \<Rightarrow> (Inl ExhaustedStreamError, tg)
      | t # ts \<Rightarrow> (Inr t, tg\<lparr>remaining := ts\<rparr>))"

text \<open>Modelled from the spec: \<^verbatim>\<open>next_of_type(kind)\<close> advances past tokens until one of
  the kind is found and fails when the stream is exhausted first.\<close>

fun drop_to_type :: "token_type \<Rightarrow> token list \<Rightarrow> (token \<times> token list) option" where
  "drop_to_type k [] = None"
| "drop_to_type k (t # ts) = (if tok_type t = k then Some (t, ts) else drop_to_type k ts)"

definition tokens_next_of_type :: "token_type \<Rightarrow> token_generator \<Rightarrow> (error + token) \<times> token_generator" where
  "tokens_next_of_type k tg =
     (case drop_to_type k (remaining tg) of
        None \<Rightarrow> (Inl LexicalMismatchError, tg\<lparr>remaining := []\<rparr>)
      | Some (t, ts) \<Rightarrow> (Inr t, tg\<lparr>remaining := ts\<rparr>))"

text \<open>Modelled from the spec: \<^verbatim>\<open>whitespace(oneline)\<close> consumes the longest run of spaces,
  comments and line continuations and, unless \<^verbatim>\<open>oneline\<close> holds outside every bracket,
  of newlines, and returns the text consumed.\<close>

definition is_whitespace :: "bool \<Rightarrow> nat \<Rightarrow> token \<Rightarrow> bool" where
  "is_whitespace oneline nesting t =
     (tok_type t = WHITESPACE \<or> tok_type t = COMMENT \<or>
      (tok_type t = NEWLINE \<and> (\<not> oneline \<or> 0 < nesting)))"

definition tokens_whitespace :: "bool \<Rightarrow> token_generator \<Rightarrow> string \<times> token_generator" where
  "tokens_whitespace oneline tg =
     (concat (map tok_text (takeWhile (is_whitespace oneline (parens tg)) (remaining tg))),
      tg\<lparr>remaining := dropWhile (is_whitespace oneline (parens tg)) (remaining tg)\<rparr>)"

text \<open>Modelled from the spec: \<^verbatim>\<open>hint_open()\<close> and \<^verbatim>\<open>hint_closed()\<close> push and pop the
  nesting counter.\<close>

definition hint_open :: "token_generator \<Rightarrow> token_generator" where
  "hint_open tg = tg\<lparr>parens := Suc (parens tg)\<rparr>"

definition hint_closed :: "token_generator \<Rightarrow> token_generator" where
  "hint_closed tg = tg\<lparr>parens := parens tg - 1\<rparr>"

text \<open>Modelled from the spec: \<^verbatim>\<open>next_name()\<close> is the next unconsumed keyword or name
  token; the cursor does not move. Without such a token the lookahead cannot decide.\<close>

definition tokens_next_name :: "token_generator \<Rightarrow> error + token" where
  "tokens_next_name tg =
     (case drop_to_type NAME (remaining tg) of
        None \<Rightarrow> Inl AmbiguityResolutionError
      | Some (t, ts) \<Rightarrow> Inr t)"

subsection \<open>The formatting attached to nodes\<close>

text \<open>
  Modelled from the spec: the module \<^verbatim>\<open>pasta/base/ast_utils.py\<close> is missing. The
  formatting is stashed on the nodes themselves, in a bag of named values per node;
  here the bags of all nodes are one dictionary keyed by the node and the name.
  \<^verbatim>\<open>setup_props\<close> makes the bag of a node if it has none and changes no value;
  \<^verbatim>\<open>prop\<close> (here \<^verbatim>\<open>node_prop\<close>) reads a value, \<^verbatim>\<open>setprop\<close> stores one, and \<^verbatim>\<open>appendprop\<close> appends a text to
  the text stored (the empty text when there is none).
\<close>

record annotator =
  tokens :: token_generator
  node_props :: "(ref \<times> string) \<rightharpoonup> pyval"

definition node_prop :: "ref \<Rightarrow> string \<Rightarrow> annotator \<Rightarrow> pyval option" where
  "node_prop r nm a = node_props a (r, nm)"

definition setprop :: "ref \<Rightarrow> string \<Rightarrow> pyval \<Rightarrow> annotator \<Rightarrow> annotator" where
  "setprop r nm v a = a\<lparr>node_props := (node_props a)((r, nm) \<mapsto> v)\<rparr>"

definition prop_text :: "ref \<Rightarrow> string \<Rightarrow> annotator \<Rightarrow> string" where
  "prop_text r nm a = (case node_props a (r, nm) of Some (PStr s) \<Rightarrow> s | _ \<Rightarrow> [])"

definition appendprop :: "ref \<Rightarrow> string \<Rightarrow> string \<Rightarrow> annotator \<Rightarrow> annotator" where
  "appendprop r nm s a = setprop r nm (PStr (prop_text r nm a @ s)) a"

text \<open>The truth value of a stored value, as in \<^verbatim>\<open>if ast_utils.prop(node, 'is_elif')\<close>.\<close>

fun truthy :: "pyval option \<Rightarrow> bool" where
  "truthy None = False"
| "truthy (Some PNone) = False"
| "truthy (Some (PBool b)) = b"
| "truthy (Some (PStr s)) = (s \<noteq> [])"
| "truthy (Some (PInt i)) = (i \<noteq> 0)"
| "truthy (Some (PRef r)) = True"
| "truthy (Some (PList l)) = (l \<noteq> [])"

subsection \<open>Steps of the annotator\<close>

text \<open>
  A step of the annotator changes the annotator (the cursor of the token stream and the
  formatting on the nodes, which are changed in place) and returns a value or raises an
  exception. What a step has changed before it raises stays changed.
\<close>

type_synonym 'a step = "annotator \<Rightarrow> (error + 'a) \<times> annotator"

definition done_with :: "'a \<Rightarrow> 'a step" where
  "done_with x a = (Inr x, a)"

definition raise :: "error \<Rightarrow> 'a step" where
  "raise e a = (Inl e, a)"

definition and_then :: "'a step \<Rightarrow> ('a \<Rightarrow> 'b step) \<Rightarrow> 'b step" where
  "and_then m f a = (case m a of (Inl e, a') \<Rightarrow> (Inl e, a') | (Inr x, a') \<Rightarrow> f x a')"

definition next_do :: "'a step \<Rightarrow> 'b step \<Rightarrow> 'b step" where
  "next_do m n = and_then m (\<lambda>x. n)"

definition modify :: "(annotator \<Rightarrow> annotator) \<Rightarrow> unit step" where
  "modify f a = (Inr (), f a)"

text \<open>\<^verbatim>\<open>AstAnnotator.ws\<close>.\<close>

definition ws :: "bool \<Rightarrow> string step" where
  "ws oneline a =
     (case tokens_whitespace oneline (tokens a) of (s, tg) \<Rightarrow> (Inr s, a\<lparr>tokens := tg\<rparr>))"

text \<open>\<^verbatim>\<open>s in t\<close> for strings: \<^verbatim>\<open>s\<close> occurs in \<^verbatim>\<open>t\<close>.\<close>

definition occurs_in :: "string \<Rightarrow> string \<Rightarrow> bool" where
  "occurs_in s t = list_ex (\<lambda>i. take (length s) (drop i t) = s) [0 ..< Suc (length t)]"

text \<open>\<^verbatim>\<open>AstAnnotator.token\<close>. The exception is a \<^verbatim>\<open>ValueError\<close>, the token mismatch of the
  spec.\<close>

definition token :: "string \<Rightarrow> string step" where
  "token token_val a =
     (case tokens_next (tokens a) of
        (Inl e, tg) \<Rightarrow> (Inl e, a\<lparr>tokens := tg\<rparr>)
      | (Inr t, tg) \<Rightarrow>
          (if tok_text t \<noteq> token_val then (Inl ValueError, a\<lparr>tokens := tg\<rparr>)
           else if occurs_in (tok_text t) ''({[''
             then (Inr (tok_text t), a\<lparr>tokens := hint_open tg\<rparr>)
           else if occurs_in (tok_text t) '')}]''
             then (Inr (tok_text t), a\<lparr>tokens := hint_closed tg\<rparr>)
           else (Inr (tok_text t), a\<lparr>tokens := tg\<rparr>)))"

text \<open>
  The elements of the list \<^verbatim>\<open>attr_vals\<close> of \<^verbatim>\<open>attr\<close>: a string, which stands for the
  token with that text, or one of the functions the visitor passes: \<^verbatim>\<open>self.ws\<close>,
  \<^verbatim>\<open>lambda: self.ws(oneline=oneline)\<close> and, in \<^verbatim>\<open>visit_Num\<close>,
  \<^verbatim>\<open>lambda: self.tokens.next_of_type(token_number_type)[1]\<close>.
\<close>

datatype attr_val = Tok string | Ws bool | NextNumber

fun parse_attr_val :: "attr_val \<Rightarrow> string step" where
  "parse_attr_val (Tok s) = token s"
| "parse_attr_val (Ws oneline) = ws oneline"
| "parse_attr_val NextNumber =
     (\<lambda>a. case tokens_next_of_type NUMBER (tokens a) of
             (Inl e, tg) \<Rightarrow> (Inl e, a\<lparr>tokens := tg\<rparr>)
           | (Inr t, tg) \<Rightarrow> (Inr (tok_text t), a\<lparr>tokens := tg\<rparr>))"

text \<open>\<^verbatim>\<open>AstAnnotator.attr\<close>. The node is given by its reference and by \<^verbatim>\<open>getattr\<close> on
  it, which the snapshot of the dependencies reads; a missing attribute reads as
  \<^verbatim>\<open>None\<close>.\<close>

fun attr_deps :: "ref \<Rightarrow> (string \<Rightarrow> pyval) \<Rightarrow> string list \<Rightarrow> annotator \<Rightarrow> annotator" where
  "attr_deps r flds [] a = a"
| "attr_deps r flds (dep # deps) a = attr_deps r flds deps (setprop r (dep @ ''__src'') (flds dep) a)"

fun attr_parts :: "ref \<Rightarrow> string \<Rightarrow> attr_val list \<Rightarrow> unit step" where
  "attr_parts r attr_name [] = done_with ()"
| "attr_parts r attr_name (attr_val # attr_vals) =
     and_then (parse_attr_val attr_val)
       (\<lambda>s. next_do (modify (appendprop r attr_name s)) (attr_parts r attr_name attr_vals))"

definition attr :: "ref \<Rightarrow> (string \<Rightarrow> pyval) \<Rightarrow> string \<Rightarrow> attr_val list \<Rightarrow> string list \<Rightarrow> unit step" where
  "attr r flds attr_name attr_vals deps =
     next_do (modify (attr_deps r flds deps)) (attr_parts r attr_name attr_vals)"

text \<open>\<^verbatim>\<open>getattr(node, dep, None)\<close> on the nodes of the tree: a child node reads as its
  reference.\<close>

definition opt_ref :: "node option \<Rightarrow> pyval" where
  "opt_ref n = (case n of None \<Rightarrow> PNone | Some nd \<Rightarrow> PRef (ref_of nd))"

definition opt_str :: "string option \<Rightarrow> pyval" where
  "opt_str s = (case s of None \<Rightarrow> PNone | Some t \<Rightarrow> PStr t)"

definition lookup_field :: "(string \<times> pyval) list \<Rightarrow> string \<Rightarrow> pyval" where
  "lookup_field kvs nm = (case map_of kvs nm of None \<Rightarrow> PNone | Some v \<Rightarrow> v)"

fun node_fields :: "node \<Rightarrow> string \<Rightarrow> pyval" where
  "node_fields (Module r body) = lookup_field [(''body'', PList (map (PRef \<circ> ref_of) body))]"
| "node_fields (Import r nms) = lookup_field [(''names'', PList (map (PRef \<circ> alias_ref) nms))]"
| "node_fields (ImportFrom r module nms level) =
     lookup_field [(''module'', opt_str module), (''names'', PList (map (PRef \<circ> alias_ref) nms)),
                   (''level'', PInt level)]"
| "node_fields (Name r i ctx) = lookup_field [(''id'', PStr i), (''ctx'', PRef (ctx_ref ctx))]"
| "node_fields (Num r n) = lookup_field [(''n'', PInt n)]"
| "node_fields (Attribute r val at ctx) =
     lookup_field [(''value'', PRef (ref_of val)), (''attr'', PStr at), (''ctx'', PRef (ctx_ref ctx))]"
| "node_fields (Expr r val) = lookup_field [(''value'', PRef (ref_of val))]"
| "node_fields (Assign r targets val) =
     lookup_field [(''targets'', PList (map (PRef \<circ> ref_of) targets)), (''value'', PRef (ref_of val))]"
| "node_fields (FunctionDef r nm args body decorator_list returns) =
     lookup_field [(''name'', PStr nm), (''args'', PRef (ref_of args)),
                   (''body'', PList (map (PRef \<circ> ref_of) body)),
                   (''decorator_list'', PList (map (PRef \<circ> ref_of) decorator_list)),
                   (''returns'', opt_ref returns)]"
| "node_fields (arguments r posonlyargs args vararg kwonlyargs kw_defaults kwarg defaults) =
     lookup_field [(''posonlyargs'', PList (map (PRef \<circ> ref_of) posonlyargs)),
                   (''args'', PList (map (PRef \<circ> ref_of) args)), (''vararg'', opt_ref vararg),
                   (''kwonlyargs'', PList (map (PRef \<circ> ref_of) kwonlyargs)),
                   (''kw_defaults'', PList (map opt_ref kw_defaults)),
                   (''kwarg'', opt_ref kwarg), (''defaults'', PList (map (PRef \<circ> ref_of) defaults))]"
| "node_fields (arg r a annotation) = lookup_field [(''arg'', PStr a), (''annotation'', opt_ref annotation)]"
| "node_fields (ClassDef r nm bases body decorator_list) =
     lookup_field [(''name'', PStr nm), (''bases'', PList (map (PRef \<circ> ref_of) bases)),
                   (''body'', PList (map (PRef \<circ> ref_of) body)),
                   (''decorator_list'', PList (map (PRef \<circ> ref_of) decorator_list))]"
| "node_fields (If_stmt r test body orelse) =
     lookup_field [(''test'', PRef (ref_of test)), (''body'', PList (map (PRef \<circ> ref_of) body)),
                   (''orelse'', PList (map (PRef \<circ> ref_of) orelse))]"
| "node_fields (Pass r) = lookup_field []"
| "node_fields (Exec r body globals locals) =
     lookup_field [(''body'', PRef (ref_of body)), (''globals'', opt_ref globals), (''locals'', opt_ref locals)]"

definition no_fields :: "string \<Rightarrow> pyval" where
  "no_fields = lookup_field []"

text \<open>\<^verbatim>\<open>BaseVisitor.prefix\<close> and \<^verbatim>\<open>BaseVisitor.suffix\<close>; they declare no dependencies, so
  the fields of the node are not read.\<close>

definition prefix :: "ref \<Rightarrow> unit step" where
  "prefix r = attr r no_fields ''prefix'' [Ws False] []"

definition suffix :: "ref \<Rightarrow> bool \<Rightarrow> unit step" where
  "suffix r oneline = attr r no_fields ''suffix'' [Ws oneline] []"

text \<open>
  The decorators \<^verbatim>\<open>spaced\<close> and \<^verbatim>\<open>parenthesizable\<close>. The context manager
  \<^verbatim>\<open>self.tokens.scope(node)\<close> of the missing token generator is not described by the
  spec; it is a parameter of the annotator: the step run on entering the \<^verbatim>\<open>with\<close> block
  and the step run on leaving it.
\<close>

record scope_manager =
  scope_enter :: "ref \<Rightarrow> unit step"
  scope_exit :: "ref \<Rightarrow> unit step"

definition spaced :: "ref \<Rightarrow> unit step \<Rightarrow> unit step" where
  "spaced r f = next_do (prefix r) (next_do f (suffix r True))"

definition parenthesizable :: "scope_manager \<Rightarrow> ref \<Rightarrow> unit step \<Rightarrow> unit step" where
  "parenthesizable sm r f =
     next_do (scope_enter sm r)
       (next_do (prefix r) (next_do f (next_do (suffix r True) (scope_exit sm r))))"

definition token_only :: "string \<Rightarrow> unit step" where
  "token_only s = and_then (token s) (\<lambda>x. done_with ())"

text \<open>\<^verbatim>\<open>AstAnnotator.check_is_elif\<close>, called on a node of the class \<^verbatim>\<open>If\<close>.\<close>

definition check_is_elif :: "bool step" where
  "check_is_elif a =
     (case tokens_next_name (tokens a) of
        Inl e \<Rightarrow> (Inl e, a)
      | Inr next_tok \<Rightarrow> (Inr (tok_text next_tok = ''elif''), a))"

text \<open>\<^verbatim>\<open>visit_alias\<close>, and the loops over \<^verbatim>\<open>node.names\<close> of \<^verbatim>\<open>visit_Import\<close> and
  \<^verbatim>\<open>visit_ImportFrom\<close>; \<^verbatim>\<open>lst\<close> is \<^verbatim>\<open>node.names[-1]\<close>, compared by identity.\<close>

fun visit_alias :: "alias_node \<Rightarrow> unit step" where
  "visit_alias (Alias r nm asname) =
     spaced r
       (next_do (token_only nm)
          (case asname of
             None \<Rightarrow> done_with ()
           | Some a \<Rightarrow> next_do (attr r no_fields ''asname'' [Ws False, Tok ''as'', Ws False] []) (token_only a)))"

fun import_names :: "ref \<Rightarrow> alias_node list \<Rightarrow> unit step" where
  "import_names lst [] = done_with ()"
| "import_names lst (al # als) =
     next_do (visit_alias al)
       (next_do (if alias_ref al \<noteq> lst
                 then next_do (suffix (alias_ref al) False) (token_only '','')
                 else done_with ())
          (import_names lst als))"

fun importfrom_names :: "ref \<Rightarrow> alias_node list \<Rightarrow> unit step" where
  "importfrom_names lst [] = done_with ()"
| "importfrom_names lst (al # als) =
     next_do (visit_alias al)
       (next_do (if alias_ref al \<noteq> lst then token_only '','' else done_with ())
          (importfrom_names lst als))"

definition last_ref :: "alias_node list \<Rightarrow> ref" where
  "last_ref als = (case rev als of [] \<Rightarrow> 0 | al # x \<Rightarrow> alias_ref al)"

text \<open>The list \<^verbatim>\<open>module_pattern\<close> of \<^verbatim>\<open>visit_ImportFrom\<close>.\<close>

fun module_parts :: "string list \<Rightarrow> attr_val list" where
  "module_parts [] = []"
| "module_parts [p] = [Ws False, Tok p]"
| "module_parts (p # q # ps) = [Ws False, Tok p, Tok ''.''] @ module_parts (q # ps)"

definition module_pattern :: "string option \<Rightarrow> int \<Rightarrow> attr_val list" where
  "module_pattern module level =
     concat (replicate (nat level) [Tok ''.'', Ws False]) @
     (case module of
        None \<Rightarrow> []
      | Some m \<Rightarrow> if m = [] then [] else module_parts (split_dot m))"

subsection \<open>The loops of the traversal\<close>

text \<open>
  The loops of the \<^verbatim>\<open>visit_\<close> methods, over the child nodes of a node; \<^verbatim>\<open>vis\<close> is
  \<^verbatim>\<open>self.visit\<close>.
  \<^verbatim>\<open>visit_stmts\<close> is \<^verbatim>\<open>for stmt in body: self.visit(stmt)\<close>;
  \<^verbatim>\<open>visit_decorators\<close> the loop over \<^verbatim>\<open>decorator_list\<close>;
  \<^verbatim>\<open>visit_targets\<close> the loop over \<^verbatim>\<open>targets\<close> of \<^verbatim>\<open>visit_Assign\<close>;
  \<^verbatim>\<open>visit_bases\<close> the loop over \<^verbatim>\<open>bases\<close> of \<^verbatim>\<open>visit_ClassDef\<close>, where \<^verbatim>\<open>lst\<close> is
  \<^verbatim>\<open>node.bases[-1]\<close>, compared by identity;
  \<^verbatim>\<open>visit_positional\<close> and \<^verbatim>\<open>visit_keyword\<close> the two loops over the arguments of
  \<^verbatim>\<open>visit_arguments\<close>, the first over the \<^verbatim>\<open>npos\<close> first arguments
  (\<^verbatim>\<open>node.args[:-len(node.defaults)]\<close>, or all of them without defaults), the second
  over the rest zipped with the defaults, with the counter \<^verbatim>\<open>arg_i\<close> passed along and
  returned; \<^verbatim>\<open>visit_vararg\<close> is the part for \<^verbatim>\<open>vararg\<close> (with \<^verbatim>\<open>'*'\<close>) and for
  \<^verbatim>\<open>kwarg\<close> (with \<^verbatim>\<open>'**'\<close>).
\<close>

fun visit_stmts :: "(node \<Rightarrow> unit step) \<Rightarrow> node list \<Rightarrow> unit step" where
  "visit_stmts vis [] = done_with ()"
| "visit_stmts vis (nd # nds) = next_do (vis nd) (visit_stmts vis nds)"

fun visit_decorators :: "(node \<Rightarrow> unit step) \<Rightarrow> node list \<Rightarrow> unit step" where
  "visit_decorators vis [] = done_with ()"
| "visit_decorators vis (decorator # decorators) =
     next_do (token_only ''@'')
    (next_do (vis decorator)
    (next_do (suffix (ref_of decorator) False)
             (visit_decorators vis decorators)))"

fun visit_targets :: "(node \<Rightarrow> unit step) \<Rightarrow> node list \<Rightarrow> unit step" where
  "visit_targets vis [] = done_with ()"
| "visit_targets vis (target # targets) =
     next_do (vis target)
    (next_do (suffix (ref_of target) False)
    (next_do (token_only ''='')
             (visit_targets vis targets)))"

fun visit_bases :: "(node \<Rightarrow> unit step) \<Rightarrow> ref \<Rightarrow> node list \<Rightarrow> unit step" where
  "visit_bases vis lst [] = done_with ()"
| "visit_bases vis lst (base # bases) =
     next_do (vis base)
    (next_do (suffix (ref_of base) False)
    (next_do (if ref_of base \<noteq> lst then token_only '','' else done_with ())
             (visit_bases vis lst bases)))"

fun visit_keyword :: "(node \<Rightarrow> unit step) \<Rightarrow> nat \<Rightarrow> nat \<Rightarrow> node list \<Rightarrow> node list \<Rightarrow> nat step" where
  "visit_keyword vis total_args arg_i [] defaults = done_with arg_i"
| "visit_keyword vis total_args arg_i (ar # args) [] = done_with arg_i"
| "visit_keyword vis total_args arg_i (ar # args) (dflt # defaults) =
     next_do (vis ar)
    (next_do (suffix (ref_of ar) False)
    (next_do (token_only ''='')
    (next_do (vis dflt)
    (next_do (suffix (ref_of dflt) False)
    (next_do (if Suc arg_i < total_args then token_only '','' else done_with ())
             (visit_keyword vis total_args (Suc arg_i) args defaults))))))"

fun visit_positional :: "(node \<Rightarrow> unit step) \<Rightarrow> nat \<Rightarrow> nat \<Rightarrow> nat \<Rightarrow> node list \<Rightarrow> node list \<Rightarrow> nat step" where
  "visit_positional vis total_args arg_i npos [] defaults = done_with arg_i"
| "visit_positional vis total_args arg_i 0 (ar # args) defaults =
     visit_keyword vis total_args arg_i (ar # args) defaults"
| "visit_positional vis total_args arg_i (Suc npos) (ar # args) defaults =
     next_do (vis ar)
    (next_do (suffix (ref_of ar) False)
    (next_do (if Suc arg_i < total_args then token_only '','' else done_with ())
             (visit_positional vis total_args (Suc arg_i) npos args defaults)))"

fun visit_vararg :: "(node \<Rightarrow> unit step) \<Rightarrow> ref \<Rightarrow> (string \<Rightarrow> pyval) \<Rightarrow> string \<Rightarrow> string \<Rightarrow> node option \<Rightarrow> unit step" where
  "visit_vararg vis r flds attr_name star None = done_with ()"
| "visit_vararg vis r flds attr_name star (Some va) =
     next_do (attr r flds attr_name [Ws False, Tok star, Ws False] []) (vis va)"

text \<open>
  The part of \<^verbatim>\<open>visit_If\<close> for \<^verbatim>\<open>node.orelse\<close>. \<^verbatim>\<open>check_is_elif\<close> is asked only when
  \<^verbatim>\<open>orelse\<close> is a single \<^verbatim>\<open>If\<close> node.
\<close>

definition else_block :: "(node \<Rightarrow> unit step) \<Rightarrow> ref \<Rightarrow> node list \<Rightarrow> unit step" where
  "else_block vis r orelse =
     next_do (attr r no_fields ''elseprefix'' [Ws False] [])
    (next_do (token_only ''else'')
    (next_do (attr r no_fields ''elsesuffix'' [Ws False, Tok '':'', Ws False] [])
             (visit_stmts vis orelse)))"

fun is_If :: "node \<Rightarrow> bool" where
  "is_If (If_stmt r test body orelse) = True"
| "is_If nd = False"

fun visit_orelse :: "(node \<Rightarrow> unit step) \<Rightarrow> ref \<Rightarrow> node list \<Rightarrow> unit step" where
  "visit_orelse vis r [] = done_with ()"
| "visit_orelse vis r [nd] =
     (if is_If nd
      then and_then check_is_elif
             (\<lambda>is_elif.
                if is_elif
                then next_do (modify (setprop (ref_of nd) ''is_elif'' (PBool True))) (vis nd)
                else else_block vis r [nd])
      else else_block vis r [nd])"
| "visit_orelse vis r (nd # nd' # nds) = else_block vis r (nd # nd' # nds)"

text \<open>The loops only run \<^verbatim>\<open>self.visit\<close> on the nodes of the lists they are given.\<close>

lemma visit_stmts_cong [fundef_cong]:
  "nds = nds' \<Longrightarrow> (\<And>nd. nd \<in> set nds' \<Longrightarrow> f nd = g nd) \<Longrightarrow> visit_stmts f nds = visit_stmts g nds'"
  by (induction nds arbitrary: nds') auto

lemma visit_decorators_cong [fundef_cong]:
  "nds = nds' \<Longrightarrow> (\<And>nd. nd \<in> set nds' \<Longrightarrow> f nd = g nd) \<Longrightarrow>
     visit_decorators f nds = visit_decorators g nds'"
  by (induction nds arbitrary: nds') auto

lemma visit_targets_cong [fundef_cong]:
  "nds = nds' \<Longrightarrow> (\<And>nd. nd \<in> set nds' \<Longrightarrow> f nd = g nd) \<Longrightarrow>
     visit_targets f nds = visit_targets g nds'"
  by (induction nds arbitrary: nds') auto

lemma visit_bases_cong [fundef_cong]:
  "lst = lst' \<Longrightarrow> nds = nds' \<Longrightarrow> (\<And>nd. nd \<in> set nds' \<Longrightarrow> f nd = g nd) \<Longrightarrow>
     visit_bases f lst nds = visit_bases g lst' nds'"
  by (induction nds arbitrary: nds') auto

lemma visit_keyword_same:
  "(\<And>nd. nd \<in> set args \<union> set ds \<Longrightarrow> f nd = g nd) \<Longrightarrow>
     visit_keyword f t i args ds = visit_keyword g t i args ds"
proof (induction f t i args ds rule: visit_keyword.induct)
  case (3 vis total_args arg_i ar args dflt defaults)
  have r: "visit_keyword vis total_args (Suc arg_i) args defaults =
           visit_keyword g total_args (Suc arg_i) args defaults"
    by (rule "3.IH") (simp add: "3.prems")
  have a: "vis ar = g ar" and d: "vis dflt = g dflt" by (simp_all add: "3.prems")
  show ?case unfolding visit_keyword.simps a d r ..
qed simp_all

lemma visit_keyword_cong [fundef_cong]:
  "t = t' \<Longrightarrow> i = i' \<Longrightarrow> args = args' \<Longrightarrow> ds = ds' \<Longrightarrow>
   (\<And>nd. nd \<in> set args' \<union> set ds' \<Longrightarrow> f nd = g nd) \<Longrightarrow>
     visit_keyword f t i args ds = visit_keyword g t' i' args' ds'"
  using visit_keyword_same[of args' ds' f g t' i'] by simp

lemma visit_positional_same:
  "(\<And>nd. nd \<in> set args \<union> set ds \<Longrightarrow> f nd = g nd) \<Longrightarrow>
     visit_positional f t i n args ds = visit_positional g t i n args ds"
proof (induction f t i n args ds rule: visit_positional.induct)
  case (2 vis total_args arg_i ar args defaults)
  have "visit_keyword vis total_args arg_i (ar # args) defaults =
        visit_keyword g total_args arg_i (ar # args) defaults"
    by (rule visit_keyword_same) (rule "2.prems")
  then show ?case by simp
next
  case (3 vis total_args arg_i npos ar args defaults)
  have r: "visit_positional vis total_args (Suc arg_i) npos args defaults =
           visit_positional g total_args (Suc arg_i) npos args defaults"
    by (rule "3.IH") (simp add: "3.prems")
  have a: "vis ar = g ar" by (simp add: "3.prems")
  show ?case unfolding visit_positional.simps a r ..
qed simp_all

lemma visit_positional_cong [fundef_cong]:
  "t = t' \<Longrightarrow> i = i' \<Longrightarrow> n = n' \<Longrightarrow> args = args' \<Longrightarrow> ds = ds' \<Longrightarrow>
   (\<And>nd. nd \<in> set args' \<union> set ds' \<Longrightarrow> f nd = g nd) \<Longrightarrow>
     visit_positional f t i n args ds = visit_positional g t' i' n' args' ds'"
  using visit_positional_same[of args' ds' f g t' i' n'] by simp

lemma visit_vararg_cong [fundef_cong]:
  "r = r' \<Longrightarrow> flds = flds' \<Longrightarrow> nm = nm' \<Longrightarrow> star = star' \<Longrightarrow> opt = opt' \<Longrightarrow>
   (\<And>nd. opt' = Some nd \<Longrightarrow> f nd = g nd) \<Longrightarrow>
     visit_vararg f r flds nm star opt = visit_vararg g r' flds' nm' star' opt'"
  by (cases opt) auto

lemma else_block_cong:
  "(\<And>nd. nd \<in> set nds \<Longrightarrow> f nd = g nd) \<Longrightarrow> else_block f r nds = else_block g r nds"
  using visit_stmts_cong[of nds nds f g] by (simp add: else_block_def)

lemma visit_orelse_same:
  assumes h: "\<And>nd. nd \<in> set nds \<Longrightarrow> f nd = g nd"
  shows "visit_orelse f r nds = visit_orelse g r nds"
proof -
  have b: "else_block f r nds = else_block g r nds" using h by (rule else_block_cong)
  show ?thesis
  proof (cases nds)
    case Nil
    then show ?thesis by simp
  next
    case (Cons nd rest)
    show ?thesis
    proof (cases rest)
      case Nil
      from h Cons have fg: "f nd = g nd" by simp
      from b Cons Nil have eb: "else_block f r [nd] = else_block g r [nd]" by simp
      show ?thesis unfolding Cons Nil visit_orelse.simps fg eb ..
    next
      case (Cons nd' rest')
      with b \<open>nds = nd # rest\<close> show ?thesis by simp
    qed
  qed
qed

lemma visit_orelse_cong [fundef_cong]:
  "r = r' \<Longrightarrow> nds = nds' \<Longrightarrow> (\<And>nd. nd \<in> set nds' \<Longrightarrow> f nd = g nd) \<Longrightarrow>
     visit_orelse f r nds = visit_orelse g r' nds'"
  using visit_orelse_same[of nds' f g r'] by simp

subsection \<open>The traversal\<close>

text \<open>
  \<^verbatim>\<open>BaseVisitor.visit\<close> calls \<^verbatim>\<open>setup_props\<close>, which changes no value, and the method
  \<^verbatim>\<open>visit_\<close> of the class of the node; every class of the tree has one in
  \<^verbatim>\<open>BaseVisitor\<close> or in \<^verbatim>\<open>AstAnnotator\<close>. Each equation is the body of one of these
  methods with its decorator.
\<close>

fun a_visit :: "scope_manager \<Rightarrow> node \<Rightarrow> unit step" where
  "a_visit sm (Module r body) =
     spaced r (next_do (visit_stmts (a_visit sm) body)
                       (attr r (node_fields (Module r body)) ''suffix'' [Ws False] []))"
| "a_visit sm (Import r nms) =
     spaced r (next_do (token_only ''import'') (import_names (last_ref nms) nms))"
| "a_visit sm (ImportFrom r module nms level) =
     spaced r
       (next_do (token_only ''from'')
       (next_do (attr r (node_fields (ImportFrom r module nms level)) ''module_prefix'' [Ws False] [])
       (next_do (attr r (node_fields (ImportFrom r module nms level)) ''module''
                   (module_pattern module level) [''level'', ''module''])
       (next_do (attr r (node_fields (ImportFrom r module nms level)) ''module_suffix'' [Ws False] [])
       (next_do (token_only ''import'')
                (importfrom_names (last_ref nms) nms))))))"
| "a_visit sm (Name r i ctx) = parenthesizable sm r (token_only i)"
| "a_visit sm (Num r n) =
     parenthesizable sm r
       (attr r (node_fields (Num r n)) ''content''
          (if n < 0 then [Tok ''-'', NextNumber] else [NextNumber]) [''n''])"
| "a_visit sm (Attribute r val at ctx) =
     parenthesizable sm r
       (next_do (a_visit sm val)
       (next_do (attr r (node_fields (Attribute r val at ctx)) ''dot'' [Ws False, Tok ''.'', Ws False] [])
                (token_only at)))"
| "a_visit sm (Expr r val) = parenthesizable sm r (a_visit sm val)"
| "a_visit sm (Assign r targets val) =
     parenthesizable sm r (next_do (visit_targets (a_visit sm) targets) (a_visit sm val))"
| "a_visit sm (FunctionDef r nm args body decorator_list returns) =
     spaced r
       (next_do (visit_decorators (a_visit sm) decorator_list)
       (next_do (token_only ''def'')
       (next_do (attr r (node_fields (FunctionDef r nm args body decorator_list returns)) ''name_prefix'' [Ws False] [])
       (next_do (token_only nm)
       (next_do (attr r (node_fields (FunctionDef r nm args body decorator_list returns)) ''name_suffix'' [Ws False] [])
       (next_do (token_only ''('')
       (next_do (a_visit sm args)
       (next_do (token_only '')'')
       (next_do (case returns of
                   None \<Rightarrow> done_with ()
                 | Some ret \<Rightarrow>
                     next_do (attr r (node_fields (FunctionDef r nm args body decorator_list returns))
                                ''returns_prefix'' [Ws False, Tok ''->'', Ws False] [''returns''])
                             (a_visit sm ret))
       (next_do (token_only '':'')
                (visit_stmts (a_visit sm) body)))))))))))"
| "a_visit sm (arguments r posonlyargs args vararg kwonlyargs kw_defaults kwarg defaults) =
     spaced r
       (and_then (visit_positional (a_visit sm)
                    (length args + (if vararg = None then 0 else 1) + (if kwarg = None then 0 else 1))
                    0
                    (if defaults = [] then length args else length args - length defaults)
                    args defaults)
          (\<lambda>arg_i.
             next_do (visit_vararg (a_visit sm) r (node_fields (arguments r posonlyargs args vararg kwonlyargs kw_defaults kwarg defaults))
                        ''vararg_prefix'' ''*'' vararg)
            (next_do (if vararg \<noteq> None \<and>
                         Suc arg_i < length args + (if vararg = None then 0 else 1) + (if kwarg = None then 0 else 1)
                      then token_only '','' else done_with ())
                     (visit_vararg (a_visit sm) r (node_fields (arguments r posonlyargs args vararg kwonlyargs kw_defaults kwarg defaults))
                        ''kwarg_prefix'' ''**'' kwarg))))"
| "a_visit sm (arg r a annotation) =
     spaced r
       (next_do (token_only a)
       (next_do (suffix r False)
                (case annotation of
                   None \<Rightarrow> done_with ()
                 | Some ann \<Rightarrow> next_do (token_only '':'') (a_visit sm ann))))"
| "a_visit sm (ClassDef r nm bases body decorator_list) =
     spaced r
       (next_do (visit_decorators (a_visit sm) decorator_list)
       (next_do (token_only ''class'')
       (next_do (attr r (node_fields (ClassDef r nm bases body decorator_list)) ''name_prefix'' [Ws False] [])
       (next_do (token_only nm)
       (next_do (attr r (node_fields (ClassDef r nm bases body decorator_list)) ''name_suffix'' [Ws False] [])
       (next_do (token_only ''('')
       (next_do (visit_bases (a_visit sm) (case rev bases of [] \<Rightarrow> 0 | b # x \<Rightarrow> ref_of b) bases)
       (next_do (token_only '')'')
       (next_do (token_only '':'')
                (visit_stmts (a_visit sm) body))))))))))"
| "a_visit sm (If_stmt r test body orelse) =
     spaced r
       (and_then (\<lambda>a. (Inr (truthy (node_prop r ''is_elif'' a)), a))
          (\<lambda>is_elif.
             next_do (token_only (if is_elif then ''elif'' else ''if''))
            (next_do (a_visit sm test)
            (next_do (attr r (node_fields (If_stmt r test body orelse)) ''testsuffix''
                        [Ws False, Tok '':'', Ws False] [])
            (next_do (visit_stmts (a_visit sm) body)
                     (visit_orelse (a_visit sm) r orelse))))))"
| "a_visit sm (Pass r) = spaced r (token_only ''pass'')"
| "a_visit sm (Exec r body globals locals) = spaced r (raise NotImplementedError)"

text \<open>The annotation pass of the test: \<^verbatim>\<open>annotator = AstAnnotator(src)\<close>, on the tokens
  of the source, and \<^verbatim>\<open>annotator.visit(t)\<close>.\<close>

definition new_AstAnnotator :: "token list \<Rightarrow> annotator" where
  "new_AstAnnotator toks = \<lparr>tokens = \<lparr>remaining = toks, parens = 0\<rparr>, node_props = Map.empty\<rparr>"

definition annotate :: "scope_manager \<Rightarrow> token list \<Rightarrow> node \<Rightarrow> (error + unit) \<times> annotator" where
  "annotate sm toks tree = a_visit sm tree (new_AstAnnotator toks)"

text \<open>A scope manager that does nothing, for examples without parentheses.\<close>

definition no_scope :: scope_manager where
  "no_scope = \<lparr>scope_enter = (\<lambda>r. done_with ()), scope_exit = (\<lambda>r. done_with ())\<rparr>"

subsection \<open>The slot of the code generator\<close>

text \<open>
  Modelled from the spec: the module \<^verbatim>\<open>pasta/base/codegen.py\<close> is missing. At a slot
  the generator replays the captured text when there is one and the snapshot of every
  declared dependency still equals the current value of the field, and gives the
  default rendering of the slot otherwise.
\<close>

definition snapshot_valid :: "((ref \<times> string) \<rightharpoonup> pyval) \<Rightarrow> ref \<Rightarrow> (string \<Rightarrow> pyval) \<Rightarrow> string list \<Rightarrow> bool" where
  "snapshot_valid props r flds deps =
     list_all (\<lambda>dep. props (r, dep @ ''__src'') = Some (flds dep)) deps"

definition codegen_attr :: "((ref \<times> string) \<rightharpoonup> pyval) \<Rightarrow> ref \<Rightarrow> (string \<Rightarrow> pyval) \<Rightarrow> string \<Rightarrow> string list \<Rightarrow> string \<Rightarrow> string" where
  "codegen_attr props r flds attr_name deps dflt =
     (case props (r, attr_name) of
        Some (PStr s) \<Rightarrow> if snapshot_valid props r flds deps then s else dflt
      | _ \<Rightarrow> dflt)"


subsection \<open>Statements of a tree, and examples\<close>

text \<open>The statements of a tree: the nodes of the statement lists (\<^verbatim>\<open>body\<close>, \<^verbatim>\<open>orelse\<close>),
  at any depth.\<close>

fun stmts_of :: "node \<Rightarrow> node set" where
  "stmts_of (Module r body) = (\<Union>nd \<in> set body. stmts_of nd)"
| "stmts_of (If_stmt r test body orelse) =
     insert (If_stmt r test body orelse)
       ((\<Union>nd \<in> set body. stmts_of nd) \<union> (\<Union>nd \<in> set orelse. stmts_of nd))"
| "stmts_of (FunctionDef r nm args body decorator_list returns) =
     insert (FunctionDef r nm args body decorator_list returns) (\<Union>nd \<in> set body. stmts_of nd)"
| "stmts_of (ClassDef r nm bases body decorator_list) =
     insert (ClassDef r nm bases body decorator_list) (\<Union>nd \<in> set body. stmts_of nd)"
| "stmts_of nd = {nd}"

definition tk :: "token_type \<Rightarrow> string \<Rightarrow> token" where
  "tk k s = \<lparr>tok_type = k, tok_text = s\<rparr>"

text \<open>
  The node of \<^verbatim>\<open>if a: pass\<close> whose \<^verbatim>\<open>orelse\<close> is the single node of \<^verbatim>\<open>if b: pass\<close>, and
  the tokens of the two sources with this tree: \<^verbatim>\<open>if a: pass\<close> / \<^verbatim>\<open>elif b: pass\<close> and
  \<^verbatim>\<open>if a: pass\<close> / \<^verbatim>\<open>else:\<close> / \<^verbatim>\<open>  if b: pass\<close>.
\<close>

definition inner_if :: node where
  "inner_if = If_stmt 4 (Name 5 ''b'' (Load 9)) [Pass 6] []"

definition outer_if :: node where
  "outer_if = If_stmt 1 (Name 2 ''a'' (Load 9)) [Pass 3] [If_stmt 4 (Name 5 ''b'' (Load 9)) [Pass 6] []]"

definition if_elif_tokens :: "token list" where
  "if_elif_tokens =
     [tk NAME ''if'', tk WHITESPACE '' '', tk NAME ''a'', tk OP '':'', tk WHITESPACE '' '',
      tk NAME ''pass'', tk NEWLINE [CHR 0x0A],
      tk NAME ''elif'', tk WHITESPACE '' '', tk NAME ''b'', tk OP '':'',
      tk WHITESPACE '' '', tk NAME ''pass'', tk NEWLINE [CHR 0x0A], tk ENDMARKER []]"

definition if_else_tokens :: "token list" where
  "if_else_tokens =
     [tk NAME ''if'', tk WHITESPACE '' '', tk NAME ''a'', tk OP '':'', tk WHITESPACE '' '',
      tk NAME ''pass'', tk NEWLINE [CHR 0x0A],
      tk NAME ''else'', tk OP '':'', tk NEWLINE [CHR 0x0A],
      tk WHITESPACE ''  '', tk NAME ''if'', tk WHITESPACE '' '', tk NAME ''b'', tk OP '':'',
      tk WHITESPACE '' '', tk NAME ''pass'', tk NEWLINE [CHR 0x0A], tk ENDMARKER []]"

text \<open>The tokens of the source \<^verbatim>\<open>0x10\<close>, for the node \<^verbatim>\<open>Num\<close> of the value 16.\<close>

definition num_tokens :: "token list" where
  "num_tokens = [tk NUMBER ''0x10'', tk NEWLINE [CHR 0x0A], tk ENDMARKER []]"

text \<open>The tokens after the name of an alias in \<^verbatim>\<open>import a sa b\<close>, where the tree has the
  alias \<^verbatim>\<open>a as b\<close>.\<close>

definition as_tokens :: "token list" where
  "as_tokens = [tk WHITESPACE '' '', tk NAME ''sa'', tk WHITESPACE '' '', tk NAME ''b'',
                tk NEWLINE [CHR 0x0A], tk ENDMARKER []]"

text \<open>The tokens of the source \<^verbatim>\<open># c\<close> / \<^verbatim>\<open>break\<close>, and the tree of the source \<^verbatim>\<open>pass\<close>.\<close>

definition break_tokens :: "token list" where
  "break_tokens = [tk COMMENT ''# c'', tk NEWLINE [CHR 0x0A], tk NAME ''break'',
                   tk NEWLINE [CHR 0x0A], tk ENDMARKER []]"

definition pass_tree :: node where
  "pass_tree = Module 0 [Pass 1]"

text \<open>The tokens and the tree of the Python 2 source \<^verbatim>\<open>exec x\<close>.\<close>

definition exec_tokens :: "token list" where
  "exec_tokens = [tk NAME ''exec'', tk WHITESPACE '' '', tk NAME ''x'', tk NEWLINE [CHR 0x0A],
                  tk ENDMARKER []]"

definition exec_tree :: node where
  "exec_tree = Module 0 [Exec 1 (Name 2 ''x'' (Load 9)) None None]"

section \<open>Properties of the structural edit\<close>

subsection \<open>Attributes, lists and the copy\<close>

lemma map_of_set_assoc: "map_of (set_assoc a v kvs) b = (if b = a then Some v else map_of kvs b)"
  by (induction kvs) auto

lemma getattr_setattr:
  "getattr (setattr h r a v) r' b =
     (if r' = r \<and> b = a \<and> r < length h then Some v else getattr h r' b)"
  by (auto simp: getattr_def setattr_def obj_at_def map_of_set_assoc nth_list_update)

lemma length_setattr: "length (setattr h r a v) = length h"
  by (simp add: setattr_def)

lemma nth_setattr_other: "r' \<noteq> r \<Longrightarrow> setattr h r a v ! r' = h ! r'"
  by (simp add: setattr_def)

lemma cls_setattr: "r' < length h \<Longrightarrow> cls (setattr h r a v ! r') = cls (h ! r')"
  by (simp add: setattr_def nth_list_update)

lemma list_index_Some_iff: "x \<in> set xs \<Longrightarrow> \<exists>i. list_index xs x = Some i"
  by (induction xs) auto

lemma list_index_props:
  "list_index xs x = Some i \<Longrightarrow> i < length xs \<and> xs ! i = x \<and> x \<notin> set (take i xs)"
  by (induction xs arbitrary: i) (auto split: if_splits option.splits)

lemma find_parent_list_Inr:
  "find_parent_list h p node as = Inr (a, l) \<Longrightarrow>
     a \<in> set as \<and> getattr h p a = Some (PList l) \<and> PRef node \<in> set l"
  by (induction as) (auto split: option.splits pyval.splits if_splits)

lemma find_parent_list_InvalidAstError:
  "find_parent_list h p node as = Inl InvalidAstError \<longleftrightarrow>
     (\<forall>a \<in> set as. getattr h p a = None \<or> (\<exists>l. getattr h p a = Some (PList l) \<and> PRef node \<notin> set l))"
  by (induction as) (auto split: option.splits pyval.splits if_splits)

lemma deepcopy_grows:
  "deepcopy_val fuel v mh = Inr (v', mh') \<Longrightarrow> \<exists>ext. snd mh' = snd mh @ ext"
  "deepcopy_vals fuel vs mh = Inr (vs', mh'v) \<Longrightarrow> \<exists>ext. snd mh'v = snd mh @ ext"
  "deepcopy_attrs fuel kvs mh = Inr (kvs', mh'a) \<Longrightarrow> \<exists>ext. snd mh'a = snd mh @ ext"
proof (induction fuel v mh and fuel vs mh and fuel kvs mh arbitrary: v' mh' and vs' mh'v and kvs' mh'a rule: deepcopy_val_deepcopy_vals_deepcopy_attrs.induct)
  case (6 fuel r memo h)
  note a = "6.prems"
  show ?case
  proof (cases "memo r")
    case (Some r') with a show ?thesis by auto
  next
    case None
    show ?thesis
    proof (cases "obj_at h r")
      case N2: None with a None show ?thesis by auto
    next
      case (Some ob)
      show ?thesis
      proof (cases fuel)
        case 0 with a None Some show ?thesis by simp
      next
        case (Suc fuel')
        from a None Some Suc obtain kvs memo' h2 where
          d: "deepcopy_attrs fuel' (attrs ob) (memo(r \<mapsto> length h), h @ [\<lparr>cls = cls ob, attrs = []\<rparr>]) = Inr (kvs, memo', h2)"
          and r: "mh' = (memo', h2[length h := \<lparr>cls = cls ob, attrs = kvs\<rparr>])"
          by (auto simp: Let_def split: sum.splits)
        from "6.IH"[OF None Some Suc refl refl d]
        obtain ext where "h2 = (h @ [\<lparr>cls = cls ob, attrs = []\<rparr>]) @ ext" by auto
        with r show ?thesis by simp
      qed
    qed
  qed
next
  case (8 fuel v vs mh)
  from "8.prems" obtain w mh1 ws where
    1: "deepcopy_val fuel v mh = Inr (w, mh1)" and 2: "deepcopy_vals fuel vs mh1 = Inr (ws, mh'v)"
    by (auto split: sum.splits)
  from "8.IH"(1)[OF 1] "8.IH"(2)[OF 1 refl 2] show ?case by auto
next
  case (10 fuel a v kvs mh)
  from "10.prems" obtain w mh1 ws where
    1: "deepcopy_val fuel v mh = Inr (w, mh1)" and 2: "deepcopy_attrs fuel kvs mh1 = Inr (ws, mh'a)"
    by (auto split: sum.splits)
  from "10.IH"(1)[OF 1] "10.IH"(2)[OF 1 refl 2] show ?case by auto
qed (auto split: sum.splits)

lemma deepcopy_result:
  assumes "deepcopy h node = Inr (r', h')" and "node < length h"
  shows "r' = length h \<and> length h < length h' \<and> take (length h) h' = h \<and> cls (h' ! r') = cls (h ! node)"
proof -
  let ?ob = "h ! node"
  from assms obtain kvs memo' h2 where
    d: "deepcopy_attrs (length h) (attrs ?ob) ([node \<mapsto> length h], h @ [\<lparr>cls = cls ?ob, attrs = []\<rparr>]) = Inr (kvs, memo', h2)"
    and r: "r' = length h" "h' = h2[length h := \<lparr>cls = cls ?ob, attrs = kvs\<rparr>]"
    by (auto simp: deepcopy_def obj_at_def Let_def split: sum.splits pyval.splits)
  from deepcopy_grows(3)[OF d] obtain ext where "h2 = (h @ [\<lparr>cls = cls ?ob, attrs = []\<rparr>]) @ ext" by auto
  with r show ?thesis by simp
qed


lemma dc_post_refl: "dc_post mh mh"
  by (simp add: dc_post_def)

lemma dc_post_trans: "dc_post a b \<Longrightarrow> dc_post b c \<Longrightarrow> dc_post a c"
  by (auto simp: dc_post_def)

lemma dc_inv_post: "dc_inv H0 fuel mh \<Longrightarrow> dc_post mh mh' \<Longrightarrow> dc_inv H0 fuel mh'"
proof -
  assume i: "dc_inv H0 fuel mh" and p: "dc_post mh mh'"
  have "{r. r < length H0 \<and> fst mh' r = None} \<subseteq> {r. r < length H0 \<and> fst mh r = None}"
    using p by (auto simp: dc_post_def)
  then have "card {r. r < length H0 \<and> fst mh' r = None} \<le> card {r. r < length H0 \<and> fst mh r = None}"
    by (intro card_mono) auto
  with i p show ?thesis by (auto simp: dc_inv_def dc_post_def)
qed

lemma deepcopy_total:
  "dc_inv H0 fuel mh \<Longrightarrow> \<forall>r \<in> refs_of v. r < length H0 \<Longrightarrow>
     \<exists>v' mh'. deepcopy_val fuel v mh = Inr (v', mh') \<and> dc_post mh mh'"
  "dc_inv H0 fuel mh \<Longrightarrow> \<forall>v \<in> set vs. \<forall>r \<in> refs_of v. r < length H0 \<Longrightarrow>
     \<exists>vs' mh'. deepcopy_vals fuel vs mh = Inr (vs', mh') \<and> dc_post mh mh'"
  "dc_inv H0 fuel mh \<Longrightarrow> \<forall>kv \<in> set kvs. \<forall>r \<in> refs_of (snd kv). r < length H0 \<Longrightarrow>
     \<exists>kvs' mh'. deepcopy_attrs fuel kvs mh = Inr (kvs', mh') \<and> dc_post mh mh'"
proof (induction fuel v mh and fuel vs mh and fuel kvs mh rule: deepcopy_val_deepcopy_vals_deepcopy_attrs.induct)
  case (6 fuel r memo h)
  from "6.prems" have rl: "r < length H0" by simp
  from "6.prems" obtain ext where cl: "closed H0" and h: "h = H0 @ ext"
    and cd: "card {x. x < length H0 \<and> memo x = None} \<le> fuel"
    by (auto simp: dc_inv_def)
  show ?case
  proof (cases "memo r")
    case (Some r') then show ?thesis by (simp add: dc_post_refl)
  next
    case None
    from rl h have ob: "obj_at h r = Some (H0 ! r)" by (simp add: obj_at_def nth_append)
    let ?ob = "H0 ! r"
    have fin: "finite {x. x < length H0 \<and> memo x = None}" by simp
    from None rl have rin: "r \<in> {x. x < length H0 \<and> memo x = None}" by simp
    then have "card {x. x < length H0 \<and> memo x = None} > 0" using fin by (metis card_gt_0_iff empty_iff)
    with cd have "0 < fuel" by linarith
    then obtain fuel' where f: "fuel = Suc fuel'" by (cases fuel) simp_all
    let ?mh1 = "(memo(r \<mapsto> length h), h @ [\<lparr>cls = cls ?ob, attrs = []\<rparr>])"
    have "{x. x < length H0 \<and> (memo(r \<mapsto> length h)) x = None} = {x. x < length H0 \<and> memo x = None} - {r}"
      by auto
    then have "card {x. x < length H0 \<and> (memo(r \<mapsto> length h)) x = None} = card {x. x < length H0 \<and> memo x = None} - 1"
      using rin fin by simp
    with cd f have "card {x. x < length H0 \<and> (memo(r \<mapsto> length h)) x = None} \<le> fuel'" by simp
    with cl h have inv1: "dc_inv H0 fuel' ?mh1" by (simp add: dc_inv_def)
    from cl rl have refs: "\<forall>kv \<in> set (attrs ?ob). \<forall>x \<in> refs_of (snd kv). x < length H0"
      unfolding closed_def using nth_mem[OF rl] by blast
    from "6.IH"[OF None ob f refl refl inv1 refs]
    obtain kvs mh2 where d: "deepcopy_attrs fuel' (attrs ?ob) ?mh1 = Inr (kvs, mh2)" and p: "dc_post ?mh1 mh2"
      by auto
    obtain memo' h2 where mh2: "mh2 = (memo', h2)" by (cases mh2)
    from p mh2 obtain ext2 where h2: "h2 = (h @ [\<lparr>cls = cls ?ob, attrs = []\<rparr>]) @ ext2"
      and dm: "dom (memo(r \<mapsto> length h)) \<subseteq> dom memo'" by (auto simp: dc_post_def)
    have res: "deepcopy_val fuel (PRef r) (memo, h) = Inr (PRef (length h), memo', h2[length h := \<lparr>cls = cls ?ob, attrs = kvs\<rparr>])"
      using None ob f d mh2 by (simp add: Let_def)
    have "dc_post (memo, h) (memo', h2[length h := \<lparr>cls = cls ?ob, attrs = kvs\<rparr>])"
      using h2 dm by (auto simp: dc_post_def)
    with res show ?thesis by blast
  qed
next
  case (5 fuel vs mh)
  from "5.IH"[OF "5.prems"(1)] "5.prems"(2) show ?case by auto
next
  case (8 fuel v vs mh)
  from "8.IH"(1)[OF "8.prems"(1)] "8.prems"(2)
  obtain w mh1 where 1: "deepcopy_val fuel v mh = Inr (w, mh1)" and p1: "dc_post mh mh1" by auto
  from dc_inv_post[OF "8.prems"(1) p1] have i1: "dc_inv H0 fuel mh1" .
  from "8.IH"(2)[OF 1 refl i1] "8.prems"(2)
  obtain ws mh2 where 2: "deepcopy_vals fuel vs mh1 = Inr (ws, mh2)" and p2: "dc_post mh1 mh2" by auto
  from 1 2 dc_post_trans[OF p1 p2] show ?case by simp
next
  case (10 fuel a v kvs mh)
  from "10.IH"(1)[OF "10.prems"(1)] "10.prems"(2)
  obtain w mh1 where 1: "deepcopy_val fuel v mh = Inr (w, mh1)" and p1: "dc_post mh mh1" by auto
  from dc_inv_post[OF "10.prems"(1) p1] have i1: "dc_inv H0 fuel mh1" .
  from "10.IH"(2)[OF 1 refl i1] "10.prems"(2)
  obtain ws mh2 where 2: "deepcopy_attrs fuel kvs mh1 = Inr (ws, mh2)" and p2: "dc_post mh1 mh2" by auto
  from 1 2 dc_post_trans[OF p1 p2] show ?case by simp
qed (simp_all add: dc_post_refl)

lemma deepcopy_returns:
  assumes "closed h" and "node < length h"
  shows "\<exists>r' h'. deepcopy h node = Inr (r', h')"
proof -
  have "card {r. r < length h \<and> (Map.empty :: ref \<rightharpoonup> ref) r = None} \<le> Suc (length h)" by simp
  with assms have inv: "dc_inv h (Suc (length h)) (Map.empty, h)" by (simp add: dc_inv_def)
  from deepcopy_total(1)[OF inv, of "PRef node"] assms
  obtain v' mh' where d: "deepcopy_val (Suc (length h)) (PRef node) (Map.empty, h) = Inr (v', mh')" by auto
  from assms have ob: "obj_at h node = Some (h ! node)" by (simp add: obj_at_def)
  from d ob obtain r' where "v' = PRef r'" by (auto simp: Let_def split: sum.splits)
  with d show ?thesis by (cases mh') (simp add: deepcopy_def)
qed

lemma find_parent_list_not_found:
  "\<forall>a \<in> set as. child_list_attr h p a \<and> \<not> node_in_list h p a node \<Longrightarrow>
     find_parent_list h p node as = Inl InvalidAstError"
  by (induction as) (auto simp: child_list_attr_def node_in_list_def split: option.splits pyval.splits)

lemma find_parent_list_found:
  "\<forall>a \<in> set as. child_list_attr h p a \<Longrightarrow> \<exists>a \<in> set as. node_in_list h p a node \<Longrightarrow>
     \<exists>a l. find_parent_list h p node as = Inr (a, l)"
  by (induction as) (auto simp: child_list_attr_def node_in_list_def split: option.splits pyval.splits)

lemma getattr_Some_length: "getattr h r a = Some v \<Longrightarrow> r < length h"
  by (auto simp: getattr_def obj_at_def split: if_splits)


subsection \<open>The structural-lookup error\<close>

text \<open>
  Claim C7. \<^verbatim>\<open>split_import\<close> raises \<^verbatim>\<open>InvalidAstError\<close> (the structural-lookup error)
  and returns nothing when the node is in none of the child lists \<^verbatim>\<open>body\<close>,
  \<^verbatim>\<open>orelse\<close> and \<^verbatim>\<open>finalbody\<close> of its parent, the parent being the one that the
  scope's node-to-parent index records for the node (possibly \<^verbatim>\<open>None\<close>, for the root of
  the analysed tree).
\<close>

theorem split_import_raises_InvalidAstError:
  assumes "parents node = Some parent"
    and "\<forall>p. parent = Some p \<longrightarrow>
           (\<forall>a \<in> set [''body'', ''orelse'', ''finalbody''].
              child_list_attr h p a \<and> \<not> node_in_list h p a node)"
  shows "fst (split_import parents h node alias_to_remove) = Inl InvalidAstError"
proof (cases parent)
  case None
  with assms show ?thesis by (simp add: split_import_def)
next
  case (Some p)
  with assms have "find_parent_list h p node [''body'', ''orelse'', ''finalbody''] = Inl InvalidAstError"
    by (intro find_parent_list_not_found) simp
  with assms Some show ?thesis by (simp add: split_import_def)
qed

theorem split_import_raises_InvalidAstError_witness:
  "[1 \<mapsto> Some 0] (1::ref) = Some (Some (0::ref)) \<and>
   child_list_attr detached_heap 0 ''body'' \<and> \<not> node_in_list detached_heap 0 ''body'' 1 \<and>
   child_list_attr detached_heap 0 ''orelse'' \<and> \<not> node_in_list detached_heap 0 ''orelse'' 1 \<and>
   child_list_attr detached_heap 0 ''finalbody'' \<and> \<not> node_in_list detached_heap 0 ''finalbody'' 1 \<and>
   fst (split_import [1 \<mapsto> Some 0] detached_heap 1 2) = Inl InvalidAstError"
proof -
  have p: "[1 \<mapsto> Some 0] (1::ref) = Some (Some (0::ref))" by simp
  have l: "\<forall>a \<in> set [''body'', ''orelse'', ''finalbody''].
      child_list_attr detached_heap 0 a \<and> \<not> node_in_list detached_heap 0 a 1"
    by (simp add: child_list_attr_def node_in_list_def getattr_def obj_at_def detached_heap_def)
  from l have l': "\<forall>p. Some (0::ref) = Some p \<longrightarrow>
      (\<forall>a \<in> set [''body'', ''orelse'', ''finalbody''].
         child_list_attr detached_heap p a \<and> \<not> node_in_list detached_heap p a 1)"
    by simp
  have "fst (split_import [1 \<mapsto> Some 0] detached_heap 1 2) = Inl InvalidAstError"
    by (rule split_import_raises_InvalidAstError[where parents = "[1 \<mapsto> Some 0]" and node = 1, OF p l'])
  with p l show ?thesis by simp
qed


text \<open>
  Claim C10. When \<^verbatim>\<open>split_import\<close> raises its structural-lookup error, the store is
  the one it was called with: no attribute of any object has changed (so
  \<^verbatim>\<open>node.names\<close> and every list of every parent are as before) and no object has been
  created. The error is raised before the first write.
\<close>

theorem split_import_error_leaves_tree:
  assumes "fst (split_import parents h node alias_to_remove) = Inl InvalidAstError"
  shows "snd (split_import parents h node alias_to_remove) = h"
proof (cases "parents node")
  case None
  then show ?thesis by (simp add: split_import_def)
next
  case (Some parent)
  note par = Some
  show ?thesis
  proof (cases parent)
    case None
    with par show ?thesis by (simp add: split_import_def)
  next
    case (Some p)
    note p = Some
    show ?thesis
    proof (cases "find_parent_list h p node [''body'', ''orelse'', ''finalbody'']")
      case (Inl e)
      with par p show ?thesis by (simp add: split_import_def)
    next
      case (Inr al)
      obtain a l where al: "al = (a, l)" by (cases al)
      note f = Inr[unfolded al]
      show ?thesis
      proof (cases "list_index l (PRef node)")
        case None
        with par p f show ?thesis by (simp add: split_import_def)
      next
        case (Some idx)
        note idx = Some
        show ?thesis
        proof (cases "deepcopy h node")
          case (Inl e)
          with par p f idx show ?thesis by (simp add: split_import_def)
        next
          case (Inr nh)
          obtain new h1 where nh: "nh = (new, h1)" by (cases nh)
          note d = Inr[unfolded nh]
          have "fst (split_import parents h node alias_to_remove) \<noteq> Inl InvalidAstError"
            using par p f idx d
            by (simp add: split_import_def Let_def split: option.split pyval.split)
          with assms show ?thesis by simp
        qed
      qed
    qed
  qed
qed

theorem split_import_error_leaves_tree_witness:
  "fst (split_import [1 \<mapsto> Some 0] detached_heap 1 2) = Inl InvalidAstError \<and>
   snd (split_import [1 \<mapsto> Some 0] detached_heap 1 2) = detached_heap"
proof -
  have e: "fst (split_import [1 \<mapsto> Some 0] detached_heap 1 2) = Inl InvalidAstError"
    by (simp add: split_import_def getattr_def obj_at_def detached_heap_def)
  from split_import_error_leaves_tree[OF e] e show ?thesis by simp
qed


subsection \<open>Splitting an import\<close>

text \<open>
  Claim C2. Let \<^verbatim>\<open>node\<close> be an element of one of the lists \<^verbatim>\<open>body\<close>, \<^verbatim>\<open>orelse\<close>,
  \<^verbatim>\<open>finalbody\<close> of its parent \<^verbatim>\<open>p\<close>, and \<^verbatim>\<open>alias_to_remove\<close> an element of
  \<^verbatim>\<open>node.names\<close>. Then \<^verbatim>\<open>split_import\<close> returns a new object \<^verbatim>\<open>new\<close> of the class of
  \<^verbatim>\<open>node\<close> whose \<^verbatim>\<open>names\<close> is \<^verbatim>\<open>[alias_to_remove]\<close>; \<^verbatim>\<open>node.names\<close> has lost its first
  occurrence of the alias and keeps the others in their order; the list that held
  \<^verbatim>\<open>node\<close> holds \<^verbatim>\<open>new\<close> right after the (first) position \<^verbatim>\<open>idx\<close> of \<^verbatim>\<open>node\<close>; and
  no other attribute of an object that existed before has changed.
\<close>

theorem split_import_moves_alias:
  assumes cl: "closed h"
    and par: "parents node = Some (Some p)"
    and nms: "getattr h node ''names'' = Some (PList nms)"
    and al: "PRef alias_to_remove \<in> set nms"
    and ty: "\<forall>a \<in> set [''body'', ''orelse'', ''finalbody'']. child_list_attr h p a"
    and ex: "\<exists>a \<in> set [''body'', ''orelse'', ''finalbody'']. node_in_list h p a node"
  shows "\<exists>a l idx new h'.
      split_import parents h node alias_to_remove = (Inr new, h') \<and>
      a \<in> set [''body'', ''orelse'', ''finalbody''] \<and>
      getattr h p a = Some (PList l) \<and> list_index l (PRef node) = Some idx \<and>
      idx < length l \<and> l ! idx = PRef node \<and>
      new = length h \<and> new < length h' \<and> cls (h' ! new) = cls (h ! node) \<and>
      getattr h' new ''names'' = Some (PList [PRef alias_to_remove]) \<and>
      getattr h' node ''names'' = Some (PList (remove1 (PRef alias_to_remove) nms)) \<and>
      getattr h' p a = Some (PList (take (Suc idx) l @ PRef new # drop (Suc idx) l)) \<and>
      (\<forall>r b. r < length h \<longrightarrow> (r, b) \<noteq> (node, ''names'') \<longrightarrow> (r, b) \<noteq> (p, a) \<longrightarrow>
             getattr h' r b = getattr h r b)"
proof -
  from find_parent_list_found[OF ty ex] obtain a l where
    f: "find_parent_list h p node [''body'', ''orelse'', ''finalbody''] = Inr (a, l)" by blast
  from find_parent_list_Inr[OF f] have a: "a \<in> set [''body'', ''orelse'', ''finalbody'']"
    and ga: "getattr h p a = Some (PList l)" and mem: "PRef node \<in> set l" by auto
  from list_index_Some_iff[OF mem] obtain idx where idx: "list_index l (PRef node) = Some idx" by blast
  from nms have nl: "node < length h" by (rule getattr_Some_length)
  from ga have pl: "p < length h" by (rule getattr_Some_length)
  from deepcopy_returns[OF cl nl] obtain new h1 where d: "deepcopy h node = Inr (new, h1)" by blast
  from deepcopy_result[OF d nl] have new: "new = length h" and l1: "length h < length h1"
    and t1: "take (length h) h1 = h" and c1: "cls (h1 ! new) = cls (h ! node)" by auto
  have old: "\<And>r. r < length h \<Longrightarrow> h1 ! r = h ! r"
    using t1 by (metis nth_take)
  have g1: "\<And>r b. r < length h \<Longrightarrow> getattr h1 r b = getattr h r b"
    using old l1 by (simp add: getattr_def obj_at_def)
  let ?h2 = "setattr h1 new ''names'' (PList [PRef alias_to_remove])"
  let ?h3 = "setattr ?h2 node ''names'' (PList (remove1 (PRef alias_to_remove) nms))"
  let ?h4 = "setattr ?h3 p a (PList (list_insert (idx + 1) (PRef new) l))"
  have ane: "a \<noteq> ''names''" using a by auto
  have g2: "getattr ?h2 node ''names'' = Some (PList nms)"
    using nl new nms g1 by (simp add: getattr_setattr)
  have res: "split_import parents h node alias_to_remove = (Inr new, ?h4)"
    using par f idx d g2 al by (simp add: split_import_def Let_def)
  have "cls (?h4 ! new) = cls (h ! node)"
    using c1 l1 new by (simp add: cls_setattr length_setattr)
  moreover have "getattr ?h4 new ''names'' = Some (PList [PRef alias_to_remove])"
    using new l1 nl pl ane by (simp add: getattr_setattr length_setattr)
  moreover have "getattr ?h4 node ''names'' = Some (PList (remove1 (PRef alias_to_remove) nms))"
    using new l1 nl pl ane by (simp add: getattr_setattr length_setattr)
  moreover have "getattr ?h4 p a = Some (PList (take (Suc idx) l @ PRef new # drop (Suc idx) l))"
    using new l1 nl pl ane by (simp add: getattr_setattr length_setattr list_insert_def)
  moreover have "\<forall>r b. r < length h \<longrightarrow> (r, b) \<noteq> (node, ''names'') \<longrightarrow> (r, b) \<noteq> (p, a) \<longrightarrow>
             getattr ?h4 r b = getattr h r b"
    using new l1 g1 by (auto simp: getattr_setattr length_setattr)
  moreover have "new < length ?h4" using new l1 by (simp add: length_setattr)
  moreover note list_index_props[OF idx]
  ultimately show ?thesis using res a ga idx new by blast
qed

theorem split_import_moves_alias_witness:
  "closed import_heap \<and>
   [1 \<mapsto> Some 0] (1::ref) = Some (Some (0::ref)) \<and>
   getattr import_heap 1 ''names'' = Some (PList [PRef 2, PRef 3, PRef 4]) \<and>
   PRef 3 \<in> set [PRef 2, PRef 3, PRef 4] \<and>
   child_list_attr import_heap 0 ''body'' \<and>
   child_list_attr import_heap 0 ''orelse'' \<and>
   child_list_attr import_heap 0 ''finalbody'' \<and>
   node_in_list import_heap 0 ''body'' 1 \<and>
   (\<exists>h'. split_import [1 \<mapsto> Some 0] import_heap 1 3 = (Inr 5, h') \<and>
         cls (h' ! 5) = ''Import'' \<and>
         getattr h' 5 ''names'' = Some (PList [PRef 3]) \<and>
         getattr h' 1 ''names'' = Some (PList [PRef 2, PRef 4]) \<and>
         getattr h' 0 ''body'' = Some (PList [PRef 1, PRef 5]))"
proof -
  have c: "closed import_heap"
    by (simp add: closed_def import_heap_def)
  have p: "[1 \<mapsto> Some 0] (1::ref) = Some (Some (0::ref))" by simp
  have n: "getattr import_heap 1 ''names'' = Some (PList [PRef 2, PRef 3, PRef 4])"
    by (simp add: getattr_def obj_at_def import_heap_def)
  have m: "PRef 3 \<in> set [PRef 2, PRef 3, PRef 4]" by simp
  have t: "\<forall>a \<in> set [''body'', ''orelse'', ''finalbody'']. child_list_attr import_heap 0 a"
    by (simp add: child_list_attr_def getattr_def obj_at_def import_heap_def)
  have e: "\<exists>a \<in> set [''body'', ''orelse'', ''finalbody'']. node_in_list import_heap 0 a 1"
    by (simp add: node_in_list_def getattr_def obj_at_def import_heap_def)
  have e1: "node_in_list import_heap 0 ''body'' 1"
    by (simp add: node_in_list_def getattr_def obj_at_def import_heap_def)
  have b: "getattr import_heap 0 ''body'' = Some (PList [PRef 1])"
    "getattr import_heap 0 ''orelse'' = None" "getattr import_heap 0 ''finalbody'' = None"
    by (simp_all add: getattr_def obj_at_def import_heap_def)
  have len: "length import_heap = 5" and c1: "cls (import_heap ! 1) = ''Import''"
    by (simp_all add: import_heap_def)
  from split_import_moves_alias[where parents = "[1 \<mapsto> Some 0]" and node = 1, OF c p n m t e]
  obtain a l idx new h' where
    r: "split_import [1 \<mapsto> Some 0] import_heap 1 3 = (Inr new, h')"
    and a: "a \<in> set [''body'', ''orelse'', ''finalbody'']"
    and g: "getattr import_heap 0 a = Some (PList l)"
    and i: "list_index l (PRef 1) = Some idx"
    and new: "new = length import_heap"
    and k: "cls (h' ! new) = cls (import_heap ! 1)"
    and n1: "getattr h' new ''names'' = Some (PList [PRef 3])"
    and n2: "getattr h' 1 ''names'' = Some (PList (remove1 (PRef 3) [PRef 2, PRef 3, PRef 4]))"
    and n3: "getattr h' 0 a = Some (PList (take (Suc idx) l @ PRef new # drop (Suc idx) l))"
    by blast
  from a g b have al: "a = ''body''" "l = [PRef 1]" by auto
  with i have "idx = 0" by simp
  with r k n1 n2 n3 al new len c1 c p n m t e1 show ?thesis by simp
qed


section \<open>Properties of the scope analysis\<close>

subsection \<open>Looking a name up\<close>

lemma lookup_name_again:
  "lookup_name nm sc hp = (n, sc', hp') \<Longrightarrow> lookup_name nm sc' hp' = (n, sc', hp')"
proof (induction nm sc hp arbitrary: n sc' hp' rule: lookup_name.induct)
  case (1 nm ns ext par ntn hp)
  then show ?case by (auto split: option.splits)
next
  case (2 nm ns p hp)
  show ?case
  proof (cases "ns nm")
    case (Some m)
    with "2.prems" show ?thesis by auto
  next
    case None
    obtain m p' hq where l: "lookup_name nm p hp = (m, p', hq)" by (cases "lookup_name nm p hp")
    with "2.prems" None have e: "n = m" "sc' = Scope ns p'" "hp' = hq" by auto
    from "2.IH"[OF None l] have "lookup_name nm p' hq = (m, p', hq)" .
    with e None show ?thesis by simp
  qed
qed

lemma lookup_name_defined:
  "defined_in nm sc \<Longrightarrow> lookup_name nm sc hp = (n, sc', hp') \<Longrightarrow> sc' = sc \<and> hp' = hp"
proof (induction nm sc hp arbitrary: n sc' hp' rule: lookup_name.induct)
  case (1 nm ns ext par ntn hp)
  then show ?case by (auto split: option.splits)
next
  case (2 nm ns p hp)
  show ?case
  proof (cases "ns nm")
    case (Some m)
    with "2.prems" show ?thesis by auto
  next
    case None
    obtain m p' hq where l: "lookup_name nm p hp = (m, p', hq)" by (cases "lookup_name nm p hp")
    with "2.prems" None have e: "n = m" "sc' = Scope ns p'" "hp' = hq" and d: "defined_in nm p" by auto
    from "2.IH"[OF None d l] e show ?thesis by simp
  qed
qed

lemma lookup_name_undefined:
  "\<not> defined_in nm sc \<Longrightarrow> lookup_name nm sc hp = (n, sc', hp') \<Longrightarrow>
     n = length hp \<and> hp' = hp @ [new_Name nm] \<and> sc' = define_in_root nm n sc \<and>
     names (get_root_scope sc') nm = Some n"
proof (induction nm sc hp arbitrary: n sc' hp' rule: lookup_name.induct)
  case (1 nm ns ext par ntn hp)
  then show ?case by (auto split: option.splits)
next
  case (2 nm ns p hp)
  from "2.prems" have None: "ns nm = None" and d: "\<not> defined_in nm p" by auto
  obtain m p' hq where l: "lookup_name nm p hp = (m, p', hq)" by (cases "lookup_name nm p hp")
  with "2.prems" None have e: "n = m" "sc' = Scope ns p'" "hp' = hq" by auto
  from "2.IH"[OF None d l] have i: "m = length hp" "hq = hp @ [new_Name nm]"
    "p' = define_in_root nm m p" "names (get_root_scope p') nm = Some m" by auto
  from i(4) have "names (get_root_scope (Scope ns p')) nm = Some m" by simp
  with i e show ?case by simp
qed

lemma lookup_name_ok:
  "names_ok sc hp \<Longrightarrow> lookup_name nm sc hp = (n, sc', hp') \<Longrightarrow> n < length hp' \<and> names_ok sc' hp'"
proof (induction nm sc hp arbitrary: n sc' hp' rule: lookup_name.induct)
  case (1 nm ns ext par ntn hp)
  show ?case
  proof (cases "ns nm")
    case (Some m)
    then have "m \<in> ran ns" by (auto simp: ran_def)
    with "1.prems" Some show ?thesis by auto
  next
    case None
    have "ran (ns(nm \<mapsto> length hp)) \<subseteq> insert (length hp) (ran ns)"
      by (auto simp: ran_def split: if_splits)
    with "1.prems" None show ?thesis by (auto simp: less_Suc_eq)
  qed
next
  case (2 nm ns p hp)
  show ?case
  proof (cases "ns nm")
    case (Some m)
    then have "m \<in> ran ns" by (auto simp: ran_def)
    with "2.prems" Some show ?thesis by auto
  next
    case None
    obtain m p' hq where l: "lookup_name nm p hp = (m, p', hq)" by (cases "lookup_name nm p hp")
    with "2.prems" None have e: "n = m" "sc' = Scope ns p'" "hp' = hq" and o: "names_ok p hp"
      and r: "\<forall>n \<in> ran ns. n < length hp" by auto
    from "2.IH"[OF None o l] have i: "m < length hq" "names_ok p' hq" by auto
    have "length hp \<le> length hq"
    proof (cases "defined_in nm p")
      case True with lookup_name_defined[OF True l] show ?thesis by simp
    next
      case False with lookup_name_undefined[OF False l] show ?thesis by simp
    qed
    with r have "\<forall>n \<in> ran ns. n < length hq" by auto
    with i e show ?thesis by simp
  qed
qed


text \<open>
  Claim C3. \<^verbatim>\<open>lookup_name\<close> always returns a \<^verbatim>\<open>Name\<close>: the function is total, and the
  \<^verbatim>\<open>Name\<close> it returns is an object of the store whenever the names bound in the scopes
  are. For an identifier defined in no scope of the chain, the root included, the
  \<^verbatim>\<open>Name\<close> is a new object, bound to the identifier in the root scope and nowhere else;
  for a defined identifier nothing changes. A second lookup of the identifier returns
  the same \<^verbatim>\<open>Name\<close> and changes nothing. The visitor itself has no failing step: every
  function of the analysis is total and no exception is raised in \<^verbatim>\<open>scope.py\<close>.
\<close>

theorem lookup_name_never_fails:
  assumes "lookup_name nm sc hp = (n, sc', hp')"
  shows "lookup_name nm sc' hp' = (n, sc', hp') \<and>
         (defined_in nm sc \<longrightarrow> sc' = sc \<and> hp' = hp) \<and>
         (\<not> defined_in nm sc \<longrightarrow>
            n = length hp \<and> hp' = hp @ [new_Name nm] \<and> sc' = define_in_root nm n sc \<and>
            names (get_root_scope sc') nm = Some n) \<and>
         (names_ok sc hp \<longrightarrow> n < length hp' \<and> names_ok sc' hp')"
  using lookup_name_again[OF assms] lookup_name_defined[OF _ assms]
    lookup_name_undefined[OF _ assms] lookup_name_ok[OF _ assms]
  by blast


theorem lookup_name_never_fails_witness:
  "lookup_name ''x'' shadow_scope [] =
     (0, Scope Map.empty (RootScope [''x'' \<mapsto> 0] Map.empty Map.empty Map.empty), [new_Name ''x'']) \<and>
   lookup_name ''x'' (Scope Map.empty (RootScope [''x'' \<mapsto> 0] Map.empty Map.empty Map.empty))
       [new_Name ''x''] =
     (0, Scope Map.empty (RootScope [''x'' \<mapsto> 0] Map.empty Map.empty Map.empty), [new_Name ''x''])"
proof -
  have l: "lookup_name ''x'' shadow_scope [] =
     (0, Scope Map.empty (RootScope [''x'' \<mapsto> 0] Map.empty Map.empty Map.empty), [new_Name ''x''])"
    by (simp add: shadow_scope_def)
  have "lookup_name ''x'' (Scope Map.empty (RootScope [''x'' \<mapsto> 0] Map.empty Map.empty Map.empty))
       [new_Name ''x''] =
     (0, Scope Map.empty (RootScope [''x'' \<mapsto> 0] Map.empty Map.empty Map.empty), [new_Name ''x''])"
    by (rule conjunct1[OF lookup_name_never_fails[OF l]])
  with l show ?thesis by (rule conjI)
qed


subsection \<open>The external references\<close>

lemma ext_of_Scope [simp]: "ext_of (Scope ns p) = ext_of p"
  by (simp add: ext_of_def)

lemma ext_of_set_parent [simp]: "ext_of (set_parent r p sc) = ext_of sc"
  by (induction sc) (simp_all add: ext_of_def)

lemma ext_of_set_name_for_node [simp]: "ext_of (set_name_for_node r n sc) = ext_of sc"
  by (induction sc) (simp_all add: ext_of_def)

lemma ext_of_set_names [simp]: "ext_of (set_names ns sc) = ext_of sc"
  by (cases sc) (simp_all add: ext_of_def)

lemma ext_of_pop [simp]: "ext_of (pop_scope_of sc) = ext_of sc"
  by (cases sc) (simp_all add: ext_of_def)

lemma ext_of_define_name: "define_name nm nd sc hp = (n, sc', hp') \<Longrightarrow> ext_of sc' = ext_of sc"
  by (auto simp: define_name_def Let_def split: option.splits)

lemma ext_of_lookup_name: "lookup_name nm sc hp = (n, sc', hp') \<Longrightarrow> ext_of sc' = ext_of sc"
proof (induction nm sc hp arbitrary: n sc' hp' rule: lookup_name.induct)
  case (1 nm ns ext par ntn hp)
  then show ?case by (auto simp: ext_of_def split: option.splits)
next
  case (2 nm ns p hp)
  then show ?case by (auto split: option.splits prod.splits)
qed

lemma ext_of_add_external_reference:
  "ext_of (add_external_reference nm nd pk sc) = fold (add_reference_entry nd) (names_to_add nm pk) (ext_of sc)"
  by (induction sc) (simp_all add: ext_of_def)

lemma refs_at_add_entry: "refs_at (add_reference_entry nd n ext) k = (if k = n then insert nd (refs_at ext k) else refs_at ext k)"
  by (auto simp: refs_at_def add_reference_entry_def split: option.splits)

lemma refs_at_fold: "refs_at (fold (add_reference_entry nd) ks ext) k = (if k \<in> set ks then insert nd (refs_at ext k) else refs_at ext k)"
  by (induction ks arbitrary: ext) (auto simp: refs_at_add_entry)

lemma ext_v_define_name [simp]: "ext_of (cur_scope (v_define_name nm nd v)) = ext_of (cur_scope v)"
  by (auto simp: v_define_name_def split: prod.splits dest: ext_of_define_name)

lemma ext_visit_leaf [simp]: "ext_of (cur_scope (visit_leaf r v)) = ext_of (cur_scope v)"
  by (simp add: visit_leaf_def)

lemma ext_push [simp]: "ext_of (cur_scope (push_scope v)) = ext_of (cur_scope v)"
  by (simp add: push_scope_def)

lemma ext_pop [simp]: "ext_of (cur_scope (pop_scope v)) = ext_of (cur_scope v)"
  by (simp add: pop_scope_def)

lemma ext_name_effect [simp]: "ext_of (cur_scope (name_effect r i ctx v)) = ext_of (cur_scope v)"
proof (cases ctx)
  case (Load c)
  obtain n sc hp where 1: "lookup_name i (cur_scope v) (names_heap v) = (n, sc, hp)"
    by (cases "lookup_name i (cur_scope v) (names_heap v)")
  obtain n' sc' hp' where 2: "lookup_name i sc (Name_add_reference n r hp) = (n', sc', hp')"
    by (cases "lookup_name i sc (Name_add_reference n r hp)")
  from ext_of_lookup_name[OF 1] ext_of_lookup_name[OF 2] Load 1 2 show ?thesis by simp
qed simp_all

lemma ext_attribute_effect [simp]: "ext_of (cur_scope (attribute_effect r vr a v)) = ext_of (cur_scope v)"
  by (auto simp: attribute_effect_def split: option.splits prod.splits)

lemma ext_import_alias:
  "ext_of (cur_scope (import_alias (Alias a nm asn) v)) =
     fold (add_reference_entry a) (names_to_add nm True) (ext_of (cur_scope v))"
proof -
  let ?v1 = "v\<lparr>cur_scope := add_external_reference nm a True (cur_scope v)\<rparr>"
  have 1: "ext_of (cur_scope ?v1) = fold (add_reference_entry a) (names_to_add nm True) (ext_of (cur_scope v))"
    by (simp add: ext_of_add_external_reference)
  have 2: "ext_of (cur_scope (import_alias (Alias a nm asn) v)) = ext_of (cur_scope ?v1)"
  proof (cases "asn = None \<or> asn = Some []")
    case True
    show ?thesis
    proof (cases "split_dot nm")
      case Nil
      with True show ?thesis by (simp add: Let_def)
    next
      case (Cons p0 parts)
      obtain n sc hp where d: "define_name p0 a (cur_scope ?v1) (names_heap ?v1) = (n, sc, hp)"
        by (cases "define_name p0 a (cur_scope ?v1) (names_heap ?v1)")
      from ext_of_define_name[OF d] True Cons d show ?thesis by (simp add: Let_def)
    qed
  next
    case False
    then obtain b where "asn = Some b" "b \<noteq> []" by (cases asn) auto
    then show ?thesis by (simp add: Let_def)
  qed
  from 1 2 show ?thesis by simp
qed

declare import_alias.simps [simp del]

lemma ext_refs_import_alias:
  "ext_refs (import_alias (Alias a nm asn) v) k =
     (if k \<in> set (names_to_add nm True) then insert a (ext_refs v k) else ext_refs v k)"
  by (simp add: ext_refs_def ext_import_alias refs_at_fold)

lemma ext_fold_leaf [simp]: "ext_of (cur_scope (fold (\<lambda>a. visit_leaf (alias_ref a)) nms v)) = ext_of (cur_scope v)"
  by (induction nms arbitrary: v) simp_all

lemma ext_refs_importfrom_alias_mono: "x \<in> ext_refs v k \<Longrightarrow> x \<in> ext_refs (importfrom_alias m al v) k"
  by (cases al) (auto simp: Let_def ext_refs_def ext_of_add_external_reference refs_at_fold
      split: option.splits)

lemma ext_refs_importfrom_module_mono: "x \<in> ext_refs v k \<Longrightarrow> x \<in> ext_refs (importfrom_module r m v) k"
  by (auto simp: importfrom_module_def ext_refs_def ext_of_add_external_reference refs_at_fold
      split: option.splits)

lemma ext_refs_import_alias_mono: "x \<in> ext_refs v k \<Longrightarrow> x \<in> ext_refs (import_alias al v) k"
  by (cases al) (simp add: ext_refs_import_alias)

lemma ext_refs_fold_import_alias_mono: "x \<in> ext_refs v k \<Longrightarrow> x \<in> ext_refs (fold import_alias nms v) k"
  by (induction nms arbitrary: v) (auto intro: ext_refs_import_alias_mono)

lemma ext_refs_fold_importfrom_alias_mono: "x \<in> ext_refs v k \<Longrightarrow> x \<in> ext_refs (fold (importfrom_alias m) nms v) k"
  by (induction nms arbitrary: v) (auto intro: ext_refs_importfrom_alias_mono)

lemma ext_refs_fold_import_alias:
  "Alias a nm asn \<in> set nms \<Longrightarrow> k \<in> set (names_to_add nm True) \<Longrightarrow> a \<in> ext_refs (fold import_alias nms v) k"
proof (induction nms arbitrary: v)
  case Nil then show ?case by simp
next
  case (Cons al nms)
  show ?case
  proof (cases "al = Alias a nm asn")
    case True
    with Cons.prems have "a \<in> ext_refs (import_alias al v) k" by (simp add: ext_refs_import_alias)
    then show ?thesis by (simp add: ext_refs_fold_import_alias_mono)
  next
    case False
    with Cons show ?thesis by simp
  qed
qed

lemma ext_refs_simps [simp]:
  "ext_refs (v\<lparr>cur_parent := p\<rparr>) k = ext_refs v k"
  "ext_refs (v_define_name nm nd v) k = ext_refs v k"
  "ext_refs (visit_leaf r v) k = ext_refs v k"
  "ext_refs (push_scope v) k = ext_refs v k"
  "ext_refs (pop_scope v) k = ext_refs v k"
  "ext_refs (name_effect r i ctx v) k = ext_refs v k"
  "ext_refs (attribute_effect r vr at v) k = ext_refs v k"
  "ext_refs (fold (\<lambda>a. visit_leaf (alias_ref a)) nms v) k = ext_refs v k"
  "ext_refs (v\<lparr>cur_scope := set_parent r p (cur_scope v)\<rparr>) k = ext_refs v k"
  by (simp_all add: ext_refs_def)

lemma visit_ext_mono:
  "x \<in> ext_refs v k \<Longrightarrow> x \<in> ext_refs (visit nd v) k"
  "x \<in> ext_refs v k \<Longrightarrow> x \<in> ext_refs (visit_class nd v) k"
  "x \<in> ext_refs v k \<Longrightarrow> x \<in> ext_refs (visit_list nds v) k"
  "x \<in> ext_refs v k \<Longrightarrow> x \<in> ext_refs (visit_opt nopt v) k"
proof (induction nd v and nd v and nds v and nopt v rule: visit_visit_class_visit_list_visit_opt.induct)
  case (1 nd v)
  then show ?case by (simp add: Let_def)
next
  case (3 r nms v)
  then show ?case by (simp add: ext_refs_fold_import_alias_mono)
next
  case (4 r module nms level v)
  then show ?case by (simp add: ext_refs_fold_importfrom_alias_mono ext_refs_importfrom_module_mono)
qed simp_all


lemma depth_set_parent [simp]: "depth (set_parent r p sc) = depth sc"
  by (induction sc) simp_all

lemma depth_set_name_for_node [simp]: "depth (set_name_for_node r n sc) = depth sc"
  by (induction sc) simp_all

lemma depth_set_names [simp]: "depth (set_names ns sc) = depth sc"
  by (cases sc) simp_all

lemma depth_add_external_reference [simp]: "depth (add_external_reference nm nd pk sc) = depth sc"
  by (induction sc) simp_all

lemma depth_define_name: "define_name nm nd sc hp = (n, sc', hp') \<Longrightarrow> depth sc' = depth sc"
  by (auto simp: define_name_def Let_def split: option.splits)

lemma depth_lookup_name: "lookup_name nm sc hp = (n, sc', hp') \<Longrightarrow> depth sc' = depth sc"
proof (induction nm sc hp arbitrary: n sc' hp' rule: lookup_name.induct)
  case (1 nm ns ext par ntn hp)
  then show ?case by (auto split: option.splits)
next
  case (2 nm ns p hp)
  then show ?case by (auto split: option.splits prod.splits)
qed

lemma depth_v_define_name [simp]: "depth (cur_scope (v_define_name nm nd v)) = depth (cur_scope v)"
  by (auto simp: v_define_name_def split: prod.splits dest: depth_define_name)

lemma depth_visit_leaf [simp]: "depth (cur_scope (visit_leaf r v)) = depth (cur_scope v)"
  by (simp add: visit_leaf_def)

lemma depth_fold_leaf [simp]: "depth (cur_scope (fold (\<lambda>a. visit_leaf (alias_ref a)) nms v)) = depth (cur_scope v)"
  by (induction nms arbitrary: v) simp_all

lemma depth_name_effect [simp]: "depth (cur_scope (name_effect r i ctx v)) = depth (cur_scope v)"
proof (cases ctx)
  case (Load c)
  obtain n sc hp where 1: "lookup_name i (cur_scope v) (names_heap v) = (n, sc, hp)"
    by (cases "lookup_name i (cur_scope v) (names_heap v)")
  obtain n' sc' hp' where 2: "lookup_name i sc (Name_add_reference n r hp) = (n', sc', hp')"
    by (cases "lookup_name i sc (Name_add_reference n r hp)")
  from depth_lookup_name[OF 1] depth_lookup_name[OF 2] Load 1 2 show ?thesis by simp
qed simp_all

lemma depth_attribute_effect [simp]: "depth (cur_scope (attribute_effect r vr a v)) = depth (cur_scope v)"
  by (auto simp: attribute_effect_def split: option.splits prod.splits)

lemma depth_import_alias [simp]: "depth (cur_scope (import_alias al v)) = depth (cur_scope v)"
proof (cases al)
  case (Alias a nm asn)
  let ?v1 = "v\<lparr>cur_scope := add_external_reference nm a True (cur_scope v)\<rparr>"
  show ?thesis
  proof (cases "asn = None \<or> asn = Some []")
    case True
    show ?thesis
    proof (cases "split_dot nm")
      case Nil
      with True Alias show ?thesis by (simp add: Let_def import_alias.simps)
    next
      case (Cons p0 parts)
      obtain n sc hp where d: "define_name p0 a (cur_scope ?v1) (names_heap ?v1) = (n, sc, hp)"
        by (cases "define_name p0 a (cur_scope ?v1) (names_heap ?v1)")
      from depth_define_name[OF d] True Cons d Alias show ?thesis by (simp add: Let_def import_alias.simps)
    qed
  next
    case False
    then obtain b where "asn = Some b" "b \<noteq> []" by (cases asn) auto
    with Alias show ?thesis by (simp add: Let_def import_alias.simps)
  qed
qed

lemma depth_fold_import_alias [simp]: "depth (cur_scope (fold import_alias nms v)) = depth (cur_scope v)"
  by (induction nms arbitrary: v) simp_all

lemma depth_importfrom_alias [simp]: "depth (cur_scope (importfrom_alias m al v)) = depth (cur_scope v)"
  by (cases al) (auto simp: Let_def split: option.splits)

lemma depth_fold_importfrom_alias [simp]: "depth (cur_scope (fold (importfrom_alias m) nms v)) = depth (cur_scope v)"
  by (induction nms arbitrary: v) simp_all

lemma depth_importfrom_module [simp]: "depth (cur_scope (importfrom_module r m v)) = depth (cur_scope v)"
  by (auto simp: importfrom_module_def split: option.splits)

lemma depth_push_pop:
  "depth (cur_scope (push_scope v)) = Suc (depth (cur_scope v))"
  "depth (cur_scope v) = Suc d \<Longrightarrow> depth (cur_scope (pop_scope v)) = d"
  by (simp add: push_scope_def, cases "cur_scope v") (simp_all add: pop_scope_def)

lemma visit_depth:
  "depth (cur_scope (visit nd v)) = depth (cur_scope v)"
  "depth (cur_scope (visit_class nd v)) = depth (cur_scope v)"
  "depth (cur_scope (visit_list nds v)) = depth (cur_scope v)"
  "depth (cur_scope (visit_opt nopt v)) = depth (cur_scope v)"
proof (induction nd v and nd v and nds v and nopt v rule: visit_visit_class_visit_list_visit_opt.induct)
  case (1 nd v)
  then show ?case by (simp add: Let_def)
qed (simp_all add: depth_push_pop)

lemma analyze_root: "\<exists>ns ext par ntn. fst (analyze tree) = RootScope ns ext par ntn"
proof -
  have "depth (fst (analyze tree)) = 0"
    by (simp add: analyze_def Let_def visit_depth new_ScopeVisitor_def)
  then show ?thesis by (cases "fst (analyze tree)") simp_all
qed

lemma visit_import_refs:
  "Import r nms \<in> nodes_of nd \<Longrightarrow> Alias a nm asn \<in> set nms \<Longrightarrow> k \<in> set (names_to_add nm True) \<Longrightarrow>
     a \<in> ext_refs (visit nd v) k"
  "Import r nms \<in> nodes_of nd \<Longrightarrow> Alias a nm asn \<in> set nms \<Longrightarrow> k \<in> set (names_to_add nm True) \<Longrightarrow>
     a \<in> ext_refs (visit_class nd v) k"
  "Import r nms \<in> nodes_of_list nds \<Longrightarrow> Alias a nm asn \<in> set nms \<Longrightarrow> k \<in> set (names_to_add nm True) \<Longrightarrow>
     a \<in> ext_refs (visit_list nds v) k"
  "Import r nms \<in> nodes_of_opt nopt \<Longrightarrow> Alias a nm asn \<in> set nms \<Longrightarrow> k \<in> set (names_to_add nm True) \<Longrightarrow>
     a \<in> ext_refs (visit_opt nopt v) k"
proof (induction nd v and nd v and nds v and nopt v rule: visit_visit_class_visit_list_visit_opt.induct)
  case (1 nd v)
  then show ?case by (simp add: Let_def)
next
  case (3 r' nms' v)
  then show ?case by (simp add: ext_refs_fold_import_alias)
qed (auto simp del: visit.simps intro: visit_ext_mono)


text \<open>
  Claim C5, as amended. After the scope analysis of a tree one of whose nodes is an
  import statement with an alias named \<^verbatim>\<open>nm\<close>, the external-reference table of the root
  scope has an entry under \<^verbatim>\<open>nm\<close> and under each of its dotted package prefixes (for
  \<^verbatim>\<open>aaa.bbb\<close>: the keys \<^verbatim>\<open>aaa.bbb\<close> and \<^verbatim>\<open>aaa\<close>), and each entry holds the alias node
  of the statement. The node recorded is the \<^verbatim>\<open>ast.alias\<close> child, not the
  \<^verbatim>\<open>ast.Import\<close> statement: for \<^verbatim>\<open>import aaa.bbb\<close> the statement node is in neither
  entry.
\<close>

theorem external_references_of_import:
  assumes "Import r nms \<in> nodes_of tree" and "Alias a nm asn \<in> set nms"
    and "k \<in> set (names_to_add nm True)"
  shows "\<exists>l. external_references (fst (analyze tree)) k = Some l \<and> a \<in> set l"
proof -
  from visit_import_refs(1)[OF assms] have m: "a \<in> ext_refs (visit tree new_ScopeVisitor) k" .
  from analyze_root[of tree] have "get_root_scope (fst (analyze tree)) = fst (analyze tree)" by auto
  with m show ?thesis by (auto simp: ext_refs_def refs_at_def ext_of_def analyze_def Let_def split: option.splits)
qed


theorem external_references_of_import_witness:
  "(\<exists>l. external_references (fst (analyze import_tree)) ''aaa'' = Some l \<and> 2 \<in> set l) \<and>
   (\<exists>l. external_references (fst (analyze import_tree)) ''aaa.bbb'' = Some l \<and> 2 \<in> set l)"
proof -
  have n: "Import 1 [Alias 2 ''aaa.bbb'' None] \<in> nodes_of import_tree"
    by (simp add: import_tree_def)
  have a: "Alias 2 ''aaa.bbb'' None \<in> set [Alias 2 ''aaa.bbb'' None]" by simp
  have k: "names_to_add ''aaa.bbb'' True = [''aaa.bbb'', ''aaa'']"
    by (simp add: names_to_add_def upt_rec)
  have k1: "''aaa'' \<in> set (names_to_add ''aaa.bbb'' True)"
    and k2: "''aaa.bbb'' \<in> set (names_to_add ''aaa.bbb'' True)"
    by (simp_all add: k)
  from external_references_of_import[OF n a k1] external_references_of_import[OF n a k2]
  show ?thesis by (rule conjI)
qed

theorem external_references_not_import_node:
  "external_references (fst (analyze import_tree)) ''aaa'' = Some [2] \<and>
   external_references (fst (analyze import_tree)) ''aaa.bbb'' = Some [2] \<and>
   ref_of (Import 1 [Alias 2 ''aaa.bbb'' None]) \<notin> set [2]"
proof -
  have k: "names_to_add ''aaa.bbb'' True = [''aaa.bbb'', ''aaa'']"
    by (simp add: names_to_add_def upt_rec)
  have e: "external_references (cur_scope (visit import_tree new_ScopeVisitor)) =
           [''aaa.bbb'' \<mapsto> [2], ''aaa'' \<mapsto> [2]]"
    by (simp add: import_tree_def new_ScopeVisitor_def Let_def visit_leaf_def import_alias.simps
        define_name_def k add_reference_entry_def)
  then show ?thesis by (simp add: analyze_def Let_def)
qed


subsection \<open>Growth of scopes and store\<close>

text \<open>What the analysis has bound stays bound and what it has recorded stays recorded;
  these properties of every step are what the shadowing of names rests on.\<close>

lemma scope_le_refl [simp]: "scope_le sc sc"
  by (induction sc) simp_all

lemma scope_le_trans: "scope_le a b \<Longrightarrow> scope_le b c \<Longrightarrow> scope_le a c"
proof (induction a b arbitrary: c rule: scope_le.induct)
  case (1 ns ext par ntn ns' ext' par' ntn')
  then show ?case by (cases c) (auto intro: map_le_trans)
next
  case (2 ns p ns' p')
  then show ?case by (cases c) (auto intro: map_le_trans)
qed simp_all

lemma scope_le_depth: "scope_le a b \<Longrightarrow> depth b = depth a"
  by (induction a b rule: scope_le.induct) simp_all

lemma scope_le_names: "scope_le a b \<Longrightarrow> names a x = Some n \<Longrightarrow> names b x = Some n"
  by (induction a b rule: scope_le.induct) (auto simp: map_le_def dom_def)

lemma heap_le_refl [simp]: "heap_le hp hp"
  by (simp add: heap_le_def)

lemma heap_le_trans:
  assumes "heap_le a b" and "heap_le b c"
  shows "heap_le a c"
proof -
  have l: "length a \<le> length b" "length b \<le> length c"
    using assms by (simp_all add: heap_le_def)
  have "name_id (c ! n) = name_id (a ! n) \<and>
        (name_definition (a ! n) \<noteq> None \<longrightarrow> name_definition (c ! n) = name_definition (a ! n)) \<and>
        set (name_reads (a ! n)) \<subseteq> set (name_reads (c ! n))" if n: "n < length a" for n
  proof -
    from n l have nb: "n < length b" by simp
    from assms(1) n have 1: "name_id (b ! n) = name_id (a ! n)"
      "name_definition (a ! n) \<noteq> None \<longrightarrow> name_definition (b ! n) = name_definition (a ! n)"
      "set (name_reads (a ! n)) \<subseteq> set (name_reads (b ! n))"
      by (simp_all add: heap_le_def)
    from assms(2) nb have 2: "name_id (c ! n) = name_id (b ! n)"
      "name_definition (b ! n) \<noteq> None \<longrightarrow> name_definition (c ! n) = name_definition (b ! n)"
      "set (name_reads (b ! n)) \<subseteq> set (name_reads (c ! n))"
      by (simp_all add: heap_le_def)
    from 1 2 show ?thesis by auto
  qed
  with l show ?thesis by (simp add: heap_le_def)
qed

lemma heap_le_length: "heap_le a b \<Longrightarrow> length a \<le> length b"
  by (simp add: heap_le_def)

lemma heap_le_id: "heap_le a b \<Longrightarrow> n < length a \<Longrightarrow> n < length b \<and> name_id (b ! n) = name_id (a ! n)"
  by (simp add: heap_le_def)

lemma heap_le_recorded:
  assumes "heap_le a b" and "recorded nd n a"
  shows "recorded nd n b"
proof -
  from assms(2) have n: "n < length a"
    and d: "name_definition (a ! n) = Some nd \<or> nd \<in> set (name_reads (a ! n))"
    by (simp_all add: recorded_def)
  from assms(1) n have 1: "n < length b"
    "name_definition (a ! n) \<noteq> None \<longrightarrow> name_definition (b ! n) = name_definition (a ! n)"
    "set (name_reads (a ! n)) \<subseteq> set (name_reads (b ! n))"
    by (simp_all add: heap_le_def)
  from d 1 show ?thesis by (auto simp: recorded_def)
qed

lemma heap_le_reads:
  "heap_le a b \<Longrightarrow> n < length a \<Longrightarrow> r \<in> set (name_reads (a ! n)) \<Longrightarrow> r \<in> set (name_reads (b ! n))"
  by (auto simp: heap_le_def)

lemma inv_sc_bound: "inv_sc sc hp \<Longrightarrow> bound_in m sc \<Longrightarrow> m < length hp"
  by (induction sc) (auto simp: ran_def)

lemma inv_sc_heap_le: "inv_sc sc hp \<Longrightarrow> heap_le hp hp' \<Longrightarrow> inv_sc sc hp'"
proof (induction sc)
  case (RootScope ns ext par ntn)
  have "n < length hp' \<and> name_id (hp' ! n) = x" if "ns x = Some n" for x n
  proof -
    from that RootScope(1) have "n < length hp" "name_id (hp ! n) = x" by auto
    with heap_le_id[OF RootScope(2), of n] show ?thesis by simp
  qed
  then show ?case by simp
next
  case (Scope ns p)
  have "n < length hp' \<and> name_id (hp' ! n) = x \<and> \<not> bound_in n p" if "ns x = Some n" for x n
  proof -
    from that Scope(2) have "n < length hp" "name_id (hp ! n) = x" "\<not> bound_in n p" by auto
    with heap_le_id[OF Scope(3), of n] show ?thesis by simp
  qed
  moreover from Scope have "inv_sc p hp'" by simp
  ultimately show ?case by simp
qed

lemma grows_refl [simp]: "grows sc hp sc hp"
  by (simp add: grows_def)

lemma grows_trans:
  assumes "grows a ha b hb" and "grows b hb c hc"
  shows "grows a ha c hc"
proof -
  from assms have s: "scope_le a c" by (auto simp: grows_def intro: scope_le_trans)
  from assms have h: "heap_le ha hc" by (auto simp: grows_def intro: heap_le_trans)
  from assms(1) have l: "length ha \<le> length hb" by (simp add: grows_def heap_le_def)
  have f: "bound_in m a \<or> length ha \<le> m" if "bound_in m c" for m
  proof -
    from that assms(2) have "bound_in m b \<or> length hb \<le> m" by (simp add: grows_def)
    with assms(1) l show ?thesis by (auto simp: grows_def)
  qed
  from assms have i: "inv_sc a ha \<longrightarrow> inv_sc c hc" by (simp add: grows_def)
  from s h f i show ?thesis by (simp add: grows_def)
qed

lemma good_refl [simp]: "good v v"
  by (simp add: good_def)

lemma good_trans: "good a b \<Longrightarrow> good b c \<Longrightarrow> good a c"
  unfolding good_def by (rule grows_trans)

subsection \<open>The steps on the store\<close>

lemma heap_le_append: "heap_le hp (hp @ xs)"
  by (simp add: heap_le_def nth_append)

lemma heap_le_update:
  assumes "name_id (f (hp ! n)) = name_id (hp ! n)"
    and "name_definition (hp ! n) \<noteq> None \<longrightarrow> name_definition (f (hp ! n)) = name_definition (hp ! n)"
    and "set (name_reads (hp ! n)) \<subseteq> set (name_reads (f (hp ! n)))"
  shows "heap_le hp (hp[n := f (hp ! n)])"
proof -
  have "name_id (hp[n := f (hp ! n)] ! m) = name_id (hp ! m) \<and>
        (name_definition (hp ! m) \<noteq> None \<longrightarrow>
           name_definition (hp[n := f (hp ! n)] ! m) = name_definition (hp ! m)) \<and>
        set (name_reads (hp ! m)) \<subseteq> set (name_reads (hp[n := f (hp ! n)] ! m))"
    if m: "m < length hp" for m
  proof (cases "m = n")
    case True
    with m have "hp[n := f (hp ! n)] ! m = f (hp ! n)" by simp
    with True assms show ?thesis by simp
  next
    case False
    then have "hp[n := f (hp ! n)] ! m = hp ! m" by simp
    then show ?thesis by simp
  qed
  then show ?thesis by (simp add: heap_le_def)
qed

lemma Name_add_reference_le: "heap_le hp (Name_add_reference n r hp)"
  unfolding Name_add_reference_def
  by (rule heap_le_update[where f = "\<lambda>x. x\<lparr>name_reads := name_reads x @ [r]\<rparr>"]) auto

lemma Name_add_reference_length [simp]: "length (Name_add_reference n r hp) = length hp"
  by (simp add: Name_add_reference_def)

lemma Name_add_reference_read: "n < length hp \<Longrightarrow> r \<in> set (name_reads (Name_add_reference n r hp ! n))"
  by (simp add: Name_add_reference_def)

lemma Name_define_le: "heap_le hp (Name_define n nd hp)"
proof (cases "name_definition (hp ! n) = None")
  case True
  have "heap_le hp (hp[n := (\<lambda>x. x\<lparr>name_definition := Some nd\<rparr>) (hp ! n)])"
    by (rule heap_le_update) (simp_all add: True)
  with True show ?thesis by (simp add: Name_define_def)
next
  case False
  have "heap_le hp (hp[n := (\<lambda>x. x\<lparr>name_reads := name_reads x @ [nd]\<rparr>) (hp ! n)])"
    by (rule heap_le_update) auto
  with False show ?thesis by (simp add: Name_define_def)
qed

lemma Name_define_length [simp]: "length (Name_define n nd hp) = length hp"
  by (simp add: Name_define_def)

lemma Name_define_recorded: "n < length hp \<Longrightarrow> recorded nd n (Name_define n nd hp)"
  by (auto simp: recorded_def Name_define_def)

lemma Name_lookup_name_le:
  assumes "Name_lookup_name n a hp = (m, hp')"
  shows "heap_le hp hp'"
proof (cases "name_attrs (hp ! n) a")
  case (Some k)
  with assms show ?thesis by (simp add: Name_lookup_name_def)
next
  case None
  have "heap_le hp (hp[n := (\<lambda>x. x\<lparr>name_attrs := (name_attrs x)(a \<mapsto> length hp)\<rparr>) (hp ! n)])"
    by (rule heap_le_update) simp_all
  from heap_le_trans[OF this heap_le_append] None assms show ?thesis
    by (auto simp: Name_lookup_name_def)
qed

lemma define_parts_le: "heap_le hp (define_parts parts nd n hp)"
proof (induction parts nd n hp rule: define_parts.induct)
  case (1 nd cur_name hp)
  show ?case by simp
next
  case (2 part parts nd cur_name hp)
  obtain m hp' where l: "Name_lookup_name cur_name part hp = (m, hp')"
    by (cases "Name_lookup_name cur_name part hp")
  from "2.IH"[OF l[symmetric]]
  have "heap_le (Name_define m nd hp') (define_parts parts nd m (Name_define m nd hp'))" .
  from heap_le_trans[OF heap_le_trans[OF Name_lookup_name_le[OF l] Name_define_le] this] l
  show ?case by simp
qed

subsection \<open>The steps on the scopes\<close>

lemma ntn_of_Scope [simp]: "ntn_of (Scope ns p) = ntn_of p"
  by (simp add: ntn_of_def)

lemma ntn_of_set_parent [simp]: "ntn_of (set_parent r p sc) = ntn_of sc"
  by (induction sc) (simp_all add: ntn_of_def)

lemma ntn_of_add_external_reference [simp]: "ntn_of (add_external_reference nm nd pk sc) = ntn_of sc"
  by (induction sc) (simp_all add: ntn_of_def)

lemma ntn_of_set_name_for_node [simp]: "ntn_of (set_name_for_node r n sc) = (ntn_of sc)(r \<mapsto> n)"
  by (induction sc) (simp_all add: ntn_of_def)

lemma ntn_of_set_names [simp]: "ntn_of (set_names ns sc) = ntn_of sc"
  by (cases sc) (simp_all add: ntn_of_def)

lemma ntn_of_pop [simp]: "ntn_of (pop_scope_of sc) = ntn_of sc"
  by (cases sc) (simp_all add: ntn_of_def)

lemma ntn_of_define_in_root [simp]: "ntn_of (define_in_root nm n sc) = ntn_of sc"
  by (induction sc) (simp_all add: ntn_of_def)

lemma names_set_parent [simp]: "names (set_parent r p sc) = names sc"
  by (cases sc) simp_all

lemma names_set_name_for_node [simp]: "names (set_name_for_node r n sc) = names sc"
  by (cases sc) simp_all

lemma names_add_external_reference [simp]: "names (add_external_reference nm nd pk sc) = names sc"
  by (cases sc) simp_all

lemma bound_in_set_parent [simp]: "bound_in m (set_parent r p sc) = bound_in m sc"
  by (induction sc) simp_all

lemma bound_in_set_name_for_node [simp]: "bound_in m (set_name_for_node r n sc) = bound_in m sc"
  by (induction sc) simp_all

lemma bound_in_add_external_reference [simp]: "bound_in m (add_external_reference nm nd pk sc) = bound_in m sc"
  by (induction sc) simp_all

lemma inv_sc_set_parent [simp]: "inv_sc (set_parent r p sc) hp = inv_sc sc hp"
  by (induction sc) simp_all

lemma inv_sc_set_name_for_node [simp]: "inv_sc (set_name_for_node r n sc) hp = inv_sc sc hp"
  by (induction sc) simp_all

lemma inv_sc_add_external_reference [simp]: "inv_sc (add_external_reference nm nd pk sc) hp = inv_sc sc hp"
  by (induction sc) simp_all

lemma scope_le_set_parent [simp]: "scope_le sc (set_parent r p sc)"
  by (induction sc) simp_all

lemma scope_le_set_name_for_node [simp]: "scope_le sc (set_name_for_node r n sc)"
  by (induction sc) simp_all

lemma scope_le_add_external_reference [simp]: "scope_le sc (add_external_reference nm nd pk sc)"
  by (induction sc) simp_all

lemma grows_set_parent [simp]: "grows sc hp (set_parent r p sc) hp"
  by (simp add: grows_def)

lemma grows_set_name_for_node [simp]: "grows sc hp (set_name_for_node r n sc) hp"
  by (simp add: grows_def)

lemma grows_add_external_reference [simp]: "grows sc hp (add_external_reference nm nd pk sc) hp"
  by (simp add: grows_def)

lemma grows_heap: "heap_le hp hp' \<Longrightarrow> grows sc hp sc hp'"
  by (auto simp: grows_def intro: inv_sc_heap_le)

text \<open>Binding a new object in the innermost scope.\<close>

lemma grows_bind_new:
  assumes "names sc nm = None" and "heap_le (hp @ [new_Name nm]) hp'" 
  shows "grows sc hp (set_names ((names sc)(nm \<mapsto> length hp)) sc) hp'"
proof -
  let ?n = "length hp"
  let ?sc = "set_names ((names sc)(nm \<mapsto> ?n)) sc"
  have h: "heap_le hp hp'" using heap_le_trans[OF heap_le_append assms(2)] .
  have l: "?n < length hp'" using heap_le_length[OF assms(2)] by simp
  have i: "name_id (hp' ! ?n) = nm"
    using heap_le_id[OF assms(2), of ?n] by (simp add: new_Name_def)
  have s: "scope_le sc ?sc" using assms(1) by (cases sc) (auto simp: map_le_def)
  have f: "bound_in m sc \<or> ?n \<le> m" if "bound_in m ?sc" for m
    using that by (cases sc) (auto simp: ran_def split: if_splits)
  have v: "inv_sc ?sc hp'" if a: "inv_sc sc hp"
  proof (cases sc)
    case (RootScope ns ext par ntn)
    have "n < length hp' \<and> name_id (hp' ! n) = x" if b: "(ns(nm \<mapsto> ?n)) x = Some n" for x n
    proof (cases "x = nm")
      case True
      with b l i show ?thesis by simp
    next
      case False
      with b a RootScope have "n < length hp" "name_id (hp ! n) = x" by auto
      with heap_le_id[OF h, of n] show ?thesis by simp
    qed
    with RootScope show ?thesis by simp
  next
    case (Scope ns p)
    from a Scope have p: "inv_sc p hp" by simp
    have "n < length hp' \<and> name_id (hp' ! n) = x \<and> \<not> bound_in n p" if b: "(ns(nm \<mapsto> ?n)) x = Some n" for x n
    proof (cases "x = nm")
      case True
      from inv_sc_bound[OF p, of ?n] have "\<not> bound_in ?n p" by auto
      with True b l i show ?thesis by simp
    next
      case False
      with b a Scope have "n < length hp" "name_id (hp ! n) = x" "\<not> bound_in n p" by auto
      with heap_le_id[OF h, of n] show ?thesis by simp
    qed
    moreover have "inv_sc p hp'" using p h by (rule inv_sc_heap_le)
    ultimately show ?thesis using Scope by simp
  qed
  from s h f v show ?thesis by (simp add: grows_def)
qed

lemma names_set_names [simp]: "names (set_names ns sc) = ns"
  by (cases sc) simp_all

lemma inv_sc_names: "inv_sc sc hp \<Longrightarrow> names sc x = Some n \<Longrightarrow> n < length hp \<and> name_id (hp ! n) = x"
  by (cases sc) auto

lemma define_name_grows:
  assumes "define_name nm nd sc hp = (n, sc', hp')"
  shows "grows sc hp sc' hp'" and "names sc' nm = Some n" and "ntn_of sc' = ntn_of sc"
    and "inv_sc sc hp \<Longrightarrow> recorded nd n hp'"
proof -
  show "grows sc hp sc' hp'"
  proof (cases "names sc nm")
    case None
    with assms have e: "sc' = set_names ((names sc)(nm \<mapsto> length hp)) sc"
      "hp' = Name_define (length hp) nd (hp @ [new_Name nm])"
      by (auto simp: define_name_def Let_def)
    show ?thesis unfolding e by (rule grows_bind_new[OF None Name_define_le])
  next
    case (Some m)
    with assms have e: "sc' = sc" "hp' = Name_define m nd hp" by (auto simp: define_name_def)
    show ?thesis unfolding e by (rule grows_heap[OF Name_define_le])
  qed
  show "names sc' nm = Some n" using assms
    by (auto simp: define_name_def Let_def split: option.splits)
  show "ntn_of sc' = ntn_of sc" using assms
    by (auto simp: define_name_def Let_def split: option.splits)
  show "recorded nd n hp'" if a: "inv_sc sc hp"
  proof (cases "names sc nm")
    case None
    with assms have e: "n = length hp" "hp' = Name_define (length hp) nd (hp @ [new_Name nm])"
      by (auto simp: define_name_def Let_def)
    show ?thesis unfolding e by (rule Name_define_recorded) simp
  next
    case (Some m)
    with assms have e: "n = m" "hp' = Name_define m nd hp" by (auto simp: define_name_def)
    from inv_sc_names[OF a Some] have "m < length hp" by simp
    then show ?thesis unfolding e by (rule Name_define_recorded)
  qed
qed

text \<open>Looking a name up.\<close>

lemma lookup_name_top: "names sc nm = Some m \<Longrightarrow> lookup_name nm sc hp = (m, sc, hp)"
  by (cases sc) simp_all

lemma lookup_name_defined_after: "lookup_name nm sc hp = (n, sc', hp') \<Longrightarrow> defined_in nm sc'"
proof (induction nm sc hp arbitrary: n sc' hp' rule: lookup_name.induct)
  case (1 nm ns ext par ntn hp)
  then show ?case by (auto split: option.splits)
next
  case (2 nm ns p hp)
  then show ?case by (auto split: option.splits prod.splits)
qed

lemma lookup_name_heap_indep:
  "defined_in nm sc \<Longrightarrow> lookup_name nm sc hp = (n, sc', hp') \<Longrightarrow> lookup_name nm sc hp2 = (n, sc, hp2)"
proof (induction nm sc hp arbitrary: n sc' hp' rule: lookup_name.induct)
  case (1 nm ns ext par ntn hp)
  then show ?case by (auto split: option.splits)
next
  case (2 nm ns p hp)
  show ?case
  proof (cases "ns nm")
    case (Some m)
    with "2.prems" show ?thesis by auto
  next
    case None
    obtain m p' hq where l: "lookup_name nm p hp = (m, p', hq)" by (cases "lookup_name nm p hp")
    with "2.prems" None have e: "n = m" and d: "defined_in nm p" by auto
    from "2.IH"[OF None d l] e None show ?thesis by simp
  qed
qed

lemma lookup_name_defined_ok:
  "defined_in nm sc \<Longrightarrow> inv_sc sc hp \<Longrightarrow> lookup_name nm sc hp = (n, sc', hp') \<Longrightarrow>
     n < length hp \<and> name_id (hp ! n) = nm"
proof (induction nm sc hp arbitrary: n sc' hp' rule: lookup_name.induct)
  case (1 nm ns ext par ntn hp)
  then show ?case by (auto split: option.splits)
next
  case (2 nm ns p hp)
  show ?case
  proof (cases "ns nm")
    case (Some m)
    with "2.prems" show ?thesis by auto
  next
    case None
    obtain m p' hq where l: "lookup_name nm p hp = (m, p', hq)" by (cases "lookup_name nm p hp")
    with "2.prems" None have e: "n = m" and d: "defined_in nm p" and i: "inv_sc p hp" by auto
    from "2.IH"[OF None d i l] e show ?thesis by simp
  qed
qed

lemma grows_define_in_root:
  "\<not> defined_in nm sc \<Longrightarrow> grows sc hp (define_in_root nm (length hp) sc) (hp @ [new_Name nm])"
proof (induction sc)
  case (RootScope ns ext par ntn)
  then have "names (RootScope ns ext par ntn) nm = None" by simp
  from grows_bind_new[OF this heap_le_refl, of hp] show ?case by simp
next
  case (Scope ns p)
  let ?p = "define_in_root nm (length hp) p"
  let ?hp = "hp @ [new_Name nm]"
  from Scope have g: "grows p hp ?p ?hp" and n: "ns nm = None" by auto
  have f: "bound_in m (Scope ns p) \<or> length hp \<le> m" if "bound_in m (Scope ns ?p)" for m
    using that g by (auto simp: grows_def)
  have i: "inv_sc (Scope ns ?p) ?hp" if a: "inv_sc (Scope ns p) hp"
  proof -
    from a g have p: "inv_sc ?p ?hp" by (simp add: grows_def)
    have "k < length ?hp \<and> name_id (?hp ! k) = x \<and> \<not> bound_in k ?p" if b: "ns x = Some k" for x k
    proof -
      from a b have 1: "k < length hp" "name_id (hp ! k) = x" "\<not> bound_in k p" by auto
      from g 1 have "\<not> bound_in k ?p" by (auto simp: grows_def)
      with 1 show ?thesis by (simp add: nth_append)
    qed
    with p show ?thesis by simp
  qed
  from g f i show ?case by (simp add: grows_def)
qed

lemma lookup_name_grows:
  assumes "lookup_name nm sc hp = (n, sc', hp')"
  shows "grows sc hp sc' hp'" and "ntn_of sc' = ntn_of sc"
    and "inv_sc sc hp \<Longrightarrow> n < length hp' \<and> name_id (hp' ! n) = nm"
proof -
  show "grows sc hp sc' hp'"
  proof (cases "defined_in nm sc")
    case True
    with lookup_name_defined[OF True assms] show ?thesis by simp
  next
    case False
    with lookup_name_undefined[OF False assms] grows_define_in_root[OF False, of hp] show ?thesis by simp
  qed
  show "ntn_of sc' = ntn_of sc"
  proof (cases "defined_in nm sc")
    case True
    with lookup_name_defined[OF True assms] show ?thesis by simp
  next
    case False
    with lookup_name_undefined[OF False assms] show ?thesis by simp
  qed
  show "n < length hp' \<and> name_id (hp' ! n) = nm" if a: "inv_sc sc hp"
  proof (cases "defined_in nm sc")
    case True
    from lookup_name_defined[OF True assms] lookup_name_defined_ok[OF True a assms] show ?thesis by simp
  next
    case False
    with lookup_name_undefined[OF False assms] show ?thesis by (simp add: new_Name_def)
  qed
qed

lemma lookup_name_root:
  "depth sc = 0 \<Longrightarrow> lookup_name nm sc hp = (n, sc', hp') \<Longrightarrow> names sc' nm = Some n"
  by (cases sc) (auto split: option.splits)

subsection \<open>The steps of the visitor\<close>

lemma good_cur_parent [simp]: "good v (v\<lparr>cur_parent := p\<rparr>)" "good (v\<lparr>cur_parent := p\<rparr>) v"
  by (simp_all add: good_def)

lemma good_set_parent [simp]: "good v (v\<lparr>cur_scope := set_parent r p (cur_scope v)\<rparr>)"
  by (simp add: good_def)

lemma good_visit_leaf [simp]: "good v (visit_leaf r v)"
  by (simp add: good_def visit_leaf_def)

lemma ntn_visit_leaf [simp]: "ntn_of (cur_scope (visit_leaf r v)) = ntn_of (cur_scope v)"
  by (simp add: visit_leaf_def)

lemma good_fold_leaf [simp]: "good v (fold (\<lambda>a. visit_leaf (alias_ref a)) nms v)"
proof (induction nms arbitrary: v)
  case Nil
  show ?case by simp
next
  case (Cons a nms)
  from good_trans[OF good_visit_leaf Cons] show ?case by simp
qed

lemma ntn_fold_leaf [simp]: "ntn_of (cur_scope (fold (\<lambda>a. visit_leaf (alias_ref a)) nms v)) = ntn_of (cur_scope v)"
  by (induction nms arbitrary: v) simp_all

lemma v_define_name_props:
  "good v (v_define_name nm nd v)"
  "ntn_of (cur_scope (v_define_name nm nd v)) = ntn_of (cur_scope v)"
  "\<exists>n. names (cur_scope (v_define_name nm nd v)) nm = Some n \<and>
       (inv_sc (cur_scope v) (names_heap v) \<longrightarrow> recorded nd n (names_heap (v_define_name nm nd v)))"
proof -
  obtain n sc hp where d: "define_name nm nd (cur_scope v) (names_heap v) = (n, sc, hp)"
    by (cases "define_name nm nd (cur_scope v) (names_heap v)")
  then have e: "v_define_name nm nd v = v\<lparr>cur_scope := sc, names_heap := hp\<rparr>"
    by (simp add: v_define_name_def)
  note p = define_name_grows[OF d]
  show "good v (v_define_name nm nd v)" using p(1) by (simp add: e good_def)
  show "ntn_of (cur_scope (v_define_name nm nd v)) = ntn_of (cur_scope v)" using p(3) by (simp add: e)
  show "\<exists>n. names (cur_scope (v_define_name nm nd v)) nm = Some n \<and>
       (inv_sc (cur_scope v) (names_heap v) \<longrightarrow> recorded nd n (names_heap (v_define_name nm nd v)))"
    using p(2) p(4) by (auto simp: e)
qed

lemma name_effect_Load:
  assumes "lookup_name i (cur_scope v) (names_heap v) = (n, sc, hp)"
  shows "name_effect r i (Load c) v =
           v\<lparr>cur_scope := set_name_for_node r n sc, names_heap := Name_add_reference n r hp\<rparr>"
proof -
  from lookup_name_again[OF assms] have a: "lookup_name i sc hp = (n, sc, hp)" .
  from lookup_name_defined_after[OF assms] have d: "defined_in i sc" .
  from lookup_name_heap_indep[OF d a]
  have "lookup_name i sc (Name_add_reference n r hp) = (n, sc, Name_add_reference n r hp)" .
  with assms show ?thesis by simp
qed

lemma name_effect_good: "good v (name_effect r i ctx v)"
proof (cases ctx)
  case (Load c)
  obtain n sc hp where l: "lookup_name i (cur_scope v) (names_heap v) = (n, sc, hp)"
    by (cases "lookup_name i (cur_scope v) (names_heap v)")
  have 1: "grows (cur_scope v) (names_heap v) sc hp" by (rule lookup_name_grows(1)[OF l])
  have 2: "grows sc hp sc (Name_add_reference n r hp)" by (rule grows_heap[OF Name_add_reference_le])
  have 3: "grows sc (Name_add_reference n r hp) (set_name_for_node r n sc) (Name_add_reference n r hp)"
    by simp
  have e: "name_effect r i ctx v =
           v\<lparr>cur_scope := set_name_for_node r n sc, names_heap := Name_add_reference n r hp\<rparr>"
    unfolding Load by (rule name_effect_Load[OF l])
  from grows_trans[OF grows_trans[OF 1 2] 3] show ?thesis
    unfolding e by (simp add: good_def)
next
  case (Store c)
  then show ?thesis by (simp add: v_define_name_props)
next
  case (Param c)
  then show ?thesis by (simp add: v_define_name_props)
next
  case (Del c)
  then show ?thesis by simp
qed

lemma name_effect_ntn: "r' \<noteq> r \<Longrightarrow> ntn_of (cur_scope (name_effect r i ctx v)) r' = ntn_of (cur_scope v) r'"
proof (cases ctx)
  case (Load c)
  assume ne: "r' \<noteq> r"
  obtain n sc hp where l: "lookup_name i (cur_scope v) (names_heap v) = (n, sc, hp)"
    by (cases "lookup_name i (cur_scope v) (names_heap v)")
  have e: "name_effect r i ctx v =
           v\<lparr>cur_scope := set_name_for_node r n sc, names_heap := Name_add_reference n r hp\<rparr>"
    unfolding Load by (rule name_effect_Load[OF l])
  from lookup_name_grows(2)[OF l] ne show ?thesis unfolding e by simp
qed (simp_all add: v_define_name_props)

lemma attribute_effect_good: "good v (attribute_effect r vr a v)"
proof (cases "get_name_for_node vr (cur_scope v)")
  case None
  then show ?thesis by (simp add: attribute_effect_def)
next
  case (Some nv)
  obtain m hp where l: "Name_lookup_name nv a (names_heap v) = (m, hp)"
    by (cases "Name_lookup_name nv a (names_heap v)")
  have h: "heap_le (names_heap v) (Name_add_reference m r hp)"
    by (rule heap_le_trans[OF Name_lookup_name_le[OF l] Name_add_reference_le])
  have "grows (cur_scope v) (names_heap v) (set_name_for_node r m (cur_scope v)) (Name_add_reference m r hp)"
    by (rule grows_trans[OF grows_heap[OF h]]) simp
  with Some l show ?thesis by (simp add: attribute_effect_def good_def)
qed

lemma attribute_effect_ntn:
  "r' \<noteq> r \<Longrightarrow> ntn_of (cur_scope (attribute_effect r vr a v)) r' = ntn_of (cur_scope v) r'"
  by (auto simp: attribute_effect_def split: option.splits prod.splits)

lemma import_alias_good: "good v (import_alias al v)"
proof (cases al)
  case (Alias a nm asn)
  let ?v1 = "v\<lparr>cur_scope := add_external_reference nm a True (cur_scope v)\<rparr>"
  have 1: "good v ?v1" by (simp add: good_def)
  have 2: "good ?v1 (import_alias (Alias a nm asn) v)"
  proof (cases "asn = None \<or> asn = Some []")
    case True
    show ?thesis
    proof (cases "split_dot nm")
      case Nil
      with True show ?thesis by (simp add: Let_def import_alias.simps)
    next
      case (Cons p0 parts)
      obtain n sc hp where d: "define_name p0 a (cur_scope ?v1) (names_heap ?v1) = (n, sc, hp)"
        by (cases "define_name p0 a (cur_scope ?v1) (names_heap ?v1)")
      have "grows (cur_scope ?v1) (names_heap ?v1) sc (define_parts parts a n hp)"
        by (rule grows_trans[OF define_name_grows(1)[OF d] grows_heap[OF define_parts_le]])
      with True Cons d show ?thesis by (simp add: Let_def import_alias.simps good_def)
    qed
  next
    case False
    then obtain b where "asn = Some b" "b \<noteq> []" by (cases asn) auto
    then show ?thesis using v_define_name_props(1)[of ?v1 b a] by (simp add: Let_def import_alias.simps)
  qed
  from good_trans[OF 1 2] Alias show ?thesis by simp
qed

lemma import_alias_ntn: "ntn_of (cur_scope (import_alias al v)) = ntn_of (cur_scope v)"
proof (cases al)
  case (Alias a nm asn)
  let ?v1 = "v\<lparr>cur_scope := add_external_reference nm a True (cur_scope v)\<rparr>"
  show ?thesis
  proof (cases "asn = None \<or> asn = Some []")
    case True
    show ?thesis
    proof (cases "split_dot nm")
      case Nil
      with True Alias show ?thesis by (simp add: Let_def import_alias.simps)
    next
      case (Cons p0 parts)
      obtain n sc hp where d: "define_name p0 a (cur_scope ?v1) (names_heap ?v1) = (n, sc, hp)"
        by (cases "define_name p0 a (cur_scope ?v1) (names_heap ?v1)")
      from define_name_grows(3)[OF d] True Cons d Alias show ?thesis
        by (simp add: Let_def import_alias.simps)
    qed
  next
    case False
    then obtain b where "asn = Some b" "b \<noteq> []" by (cases asn) auto
    with Alias show ?thesis using v_define_name_props(2)[of b a ?v1]
      by (simp add: Let_def import_alias.simps)
  qed
qed

lemma fold_import_alias_good: "good v (fold import_alias nms v)"
proof (induction nms arbitrary: v)
  case Nil
  show ?case by simp
next
  case (Cons a nms)
  from good_trans[OF import_alias_good Cons] show ?case by simp
qed

lemma fold_import_alias_ntn: "ntn_of (cur_scope (fold import_alias nms v)) = ntn_of (cur_scope v)"
  by (induction nms arbitrary: v) (simp_all add: import_alias_ntn)

lemma importfrom_module_good: "good v (importfrom_module r m v)"
  by (auto simp: importfrom_module_def good_def split: option.splits)

lemma importfrom_module_ntn: "ntn_of (cur_scope (importfrom_module r m v)) = ntn_of (cur_scope v)"
  by (auto simp: importfrom_module_def split: option.splits)

lemma importfrom_alias_good: "good v (importfrom_alias m al v)"
proof (cases al)
  case (Alias a nm asn)
  let ?v1 = "v_define_name (case asn of None \<Rightarrow> nm | Some b \<Rightarrow> if b = [] then nm else b) a v"
  have 1: "good v ?v1" by (rule v_define_name_props)
  have 2: "good ?v1 (importfrom_alias m (Alias a nm asn) v)"
    by (auto simp: Let_def good_def split: option.splits)
  from good_trans[OF 1 2] Alias show ?thesis by simp
qed

lemma importfrom_alias_ntn: "ntn_of (cur_scope (importfrom_alias m al v)) = ntn_of (cur_scope v)"
  by (cases al) (auto simp: Let_def v_define_name_props split: option.splits)

lemma fold_importfrom_alias_good: "good v (fold (importfrom_alias m) nms v)"
proof (induction nms arbitrary: v)
  case Nil
  show ?case by simp
next
  case (Cons a nms)
  from good_trans[OF importfrom_alias_good Cons] show ?case by simp
qed

lemma fold_importfrom_alias_ntn: "ntn_of (cur_scope (fold (importfrom_alias m) nms v)) = ntn_of (cur_scope v)"
  by (induction nms arbitrary: v) (simp_all add: importfrom_alias_ntn)

lemma good_push_pop:
  assumes "good (push_scope v) w"
  shows "good v (pop_scope w)"
proof -
  from assms have g: "grows (Scope Map.empty (cur_scope v)) (names_heap v) (cur_scope w) (names_heap w)"
    by (simp add: good_def push_scope_def)
  then obtain ns q where w: "cur_scope w = Scope ns q" and s: "scope_le (cur_scope v) q"
    by (cases "cur_scope w") (auto simp: grows_def)
  from g have h: "heap_le (names_heap v) (names_heap w)" by (simp add: grows_def)
  have f: "bound_in m (cur_scope v) \<or> length (names_heap v) \<le> m" if "bound_in m q" for m
    using that g w by (auto simp: grows_def)
  have i: "inv_sc q (names_heap w)" if "inv_sc (cur_scope v) (names_heap v)"
    using that g w by (simp add: grows_def)
  from s h f i w show ?thesis by (simp add: good_def grows_def pop_scope_def)
qed

lemma ntn_push [simp]: "ntn_of (cur_scope (push_scope v)) = ntn_of (cur_scope v)"
  by (simp add: push_scope_def)

lemma ntn_pop [simp]: "ntn_of (cur_scope (pop_scope v)) = ntn_of (cur_scope v)"
  by (simp add: pop_scope_def)

lemma visit_good:
  "good v (visit nd v)"
  "good v (visit_class nd v)"
  "good v (visit_list nds v)"
  "good v (visit_opt nopt v)"
proof (induction nd v and nd v and nds v and nopt v rule: visit_visit_class_visit_list_visit_opt.induct)
  case (1 nd v)
  let ?v1 = "v\<lparr>cur_scope := set_parent (ref_of nd) (cur_parent v) (cur_scope v)\<rparr>"
  let ?v2 = "?v1\<lparr>cur_parent := Some (ref_of nd)\<rparr>"
  have a: "good v ?v2" by (simp add: good_def)
  from "1.IH"[OF refl refl] have b: "good ?v2 (visit_class nd ?v2)" .
  have c: "good (visit_class nd ?v2) ((visit_class nd ?v2)\<lparr>cur_parent := cur_parent ?v1\<rparr>)" by simp
  from good_trans[OF good_trans[OF a b] c] show ?case by (simp add: Let_def)
next
  case (2 r body v)
  then show ?case by simp
next
  case (3 r nms v)
  from good_trans[OF fold_import_alias_good good_fold_leaf] show ?case by simp
next
  case (4 r module nms level v)
  from good_trans[OF good_trans[OF importfrom_module_good fold_importfrom_alias_good] good_fold_leaf]
  show ?case by simp
next
  case (5 r i ctx v)
  from good_trans[OF name_effect_good good_visit_leaf] show ?case by simp
next
  case (6 r n v)
  show ?case by simp
next
  case (7 r val attr ctx v)
  from good_trans[OF good_trans[OF "7.IH" good_visit_leaf] attribute_effect_good] show ?case by simp
next
  case (8 r val v)
  then show ?case by simp
next
  case (9 r targets val v)
  from good_trans[OF "9.IH"(1) "9.IH"(2)] show ?case by simp
next
  case (10 r nm args body decorator_list returns v)
  let ?p1 = "push_scope (v_define_name nm r v)"
  note g = good_trans[OF good_trans[OF good_trans[OF "10.IH"(1) "10.IH"(2)] "10.IH"(3)] "10.IH"(4)]
  from good_trans[OF v_define_name_props(1) good_push_pop[OF g]] show ?case by simp
next
  case (11 r posonlyargs args vararg kwonlyargs kw_defaults kwarg defaults v)
  from good_trans[OF good_trans[OF good_trans[OF "11.IH"(1) "11.IH"(2)] "11.IH"(3)] "11.IH"(4)]
  show ?case by simp
next
  case (12 r a annotation v)
  from good_trans[OF v_define_name_props(1) "12.IH"] show ?case by simp
next
  case (13 r nm bases body decorator_list v)
  note g = good_trans[OF good_trans[OF "13.IH"(1) "13.IH"(2)] "13.IH"(3)]
  from good_trans[OF v_define_name_props(1) good_push_pop[OF g]] show ?case by simp
next
  case (14 r test body orelse v)
  from good_trans[OF good_trans[OF "14.IH"(1) "14.IH"(2)] "14.IH"(3)] show ?case by simp
next
  case (15 r v)
  show ?case by simp
next
  case (16 r body globals locals v)
  from good_trans[OF good_trans[OF "16.IH"(1) "16.IH"(2)] "16.IH"(3)] show ?case by simp
next
  case (17 v)
  show ?case by simp
next
  case (18 nd nds v)
  from good_trans[OF "18.IH"(1) "18.IH"(2)] show ?case by simp
next
  case (19 v)
  show ?case by simp
next
  case (20 nd v)
  then show ?case by simp
qed

lemma visit_ntn:
  "r \<notin> set (refs nd) \<Longrightarrow> ntn_of (cur_scope (visit nd v)) r = ntn_of (cur_scope v) r"
  "r \<notin> set (refs nd) \<Longrightarrow> ntn_of (cur_scope (visit_class nd v)) r = ntn_of (cur_scope v) r"
  "r \<notin> set (refs_list nds) \<Longrightarrow> ntn_of (cur_scope (visit_list nds v)) r = ntn_of (cur_scope v) r"
  "r \<notin> set (refs_opt nopt) \<Longrightarrow> ntn_of (cur_scope (visit_opt nopt v)) r = ntn_of (cur_scope v) r"
proof (induction nd v and nd v and nds v and nopt v rule: visit_visit_class_visit_list_visit_opt.induct)
  case (1 nd v)
  then show ?case by (simp add: Let_def)
next
  case (3 r' nms v)
  then show ?case by (simp add: fold_import_alias_ntn)
next
  case (4 r' module nms level v)
  then show ?case by (simp add: fold_importfrom_alias_ntn importfrom_module_ntn)
next
  case (5 r' i ctx v)
  then show ?case by (simp add: name_effect_ntn)
next
  case (7 r' val attr ctx v)
  then show ?case by (simp add: attribute_effect_ntn)
next
  case (10 r' nm args body decorator_list returns v)
  then show ?case by (simp add: v_define_name_props)
next
  case (12 r' a annotation v)
  then show ?case by (simp add: v_define_name_props)
next
  case (13 r' nm bases body decorator_list v)
  then show ?case by (simp add: v_define_name_props)
qed simp_all

subsection \<open>Reaching a node\<close>

lemma ref_of_refs: "ref_of nd \<in> set (refs nd)"
  by (cases nd) simp_all

lemma direct_refs:
  "tgt \<in> direct nd \<Longrightarrow> set (refs tgt) \<subseteq> set (refs nd)"
  "tgt \<in> direct_list nds \<Longrightarrow> set (refs tgt) \<subseteq> set (refs_list nds)"
  "tgt \<in> direct_opt nopt \<Longrightarrow> set (refs tgt) \<subseteq> set (refs_opt nopt)"
  by (induction nd and nds and nopt rule: direct_direct_list_direct_opt.induct) auto

lemma nodes_of_refs:
  "tgt \<in> nodes_of nd \<Longrightarrow> set (refs tgt) \<subseteq> set (refs nd)"
  "tgt \<in> nodes_of_list nds \<Longrightarrow> set (refs tgt) \<subseteq> set (refs_list nds)"
  "tgt \<in> nodes_of_opt nopt \<Longrightarrow> set (refs tgt) \<subseteq> set (refs_opt nopt)"
  by (induction nd and nds and nopt rule: nodes_of_nodes_of_list_nodes_of_opt.induct) auto

lemma keep_visit:
  assumes post: "\<forall>v v'. good v v' \<longrightarrow> ntn_of (cur_scope v') r = ntn_of (cur_scope v) r \<longrightarrow> Post v \<longrightarrow> Post v'"
  shows "Post u \<Longrightarrow> r \<notin> set (refs c) \<Longrightarrow> Post (visit c u)"
    and "Post u \<Longrightarrow> r \<notin> set (refs_list cs) \<Longrightarrow> Post (visit_list cs u)"
    and "Post u \<Longrightarrow> r \<notin> set (refs_opt co) \<Longrightarrow> Post (visit_opt co u)"
proof -
  show "Post u \<Longrightarrow> r \<notin> set (refs c) \<Longrightarrow> Post (visit c u)"
    using post visit_good(1)[of u c] visit_ntn(1)[of r c u] by blast
  show "Post u \<Longrightarrow> r \<notin> set (refs_list cs) \<Longrightarrow> Post (visit_list cs u)"
    using post visit_good(3)[of u cs] visit_ntn(3)[of r cs u] by blast
  show "Post u \<Longrightarrow> r \<notin> set (refs_opt co) \<Longrightarrow> Post (visit_opt co u)"
    using post visit_good(4)[of u co] visit_ntn(4)[of r co u] by blast
qed

lemma pre_visit:
  assumes pre: "\<forall>v v'. good v v' \<longrightarrow> Pre v \<longrightarrow> Pre v'"
  shows "Pre u \<Longrightarrow> Pre (visit c u)"
    and "Pre u \<Longrightarrow> Pre (visit_list cs u)"
    and "Pre u \<Longrightarrow> Pre (visit_opt co u)"
  using pre visit_good(1)[of u c] visit_good(3)[of u cs] visit_good(4)[of u co] by blast+

lemma reach_refs:
  "(if deep then tgt \<in> nodes_of nd else tgt \<in> direct nd) \<Longrightarrow> w \<in> set (refs tgt) \<Longrightarrow> w \<in> set (refs nd)"
  "(if deep then tgt \<in> nodes_of_list nds else tgt \<in> direct_list nds) \<Longrightarrow> w \<in> set (refs tgt) \<Longrightarrow> w \<in> set (refs_list nds)"
  "(if deep then tgt \<in> nodes_of_opt nopt else tgt \<in> direct_opt nopt) \<Longrightarrow> w \<in> set (refs tgt) \<Longrightarrow> w \<in> set (refs_opt nopt)"
proof -
  show "(if deep then tgt \<in> nodes_of nd else tgt \<in> direct nd) \<Longrightarrow> w \<in> set (refs tgt) \<Longrightarrow> w \<in> set (refs nd)"
    using direct_refs(1)[of tgt nd] nodes_of_refs(1)[of tgt nd] by (cases deep) auto
  show "(if deep then tgt \<in> nodes_of_list nds else tgt \<in> direct_list nds) \<Longrightarrow> w \<in> set (refs tgt) \<Longrightarrow> w \<in> set (refs_list nds)"
    using direct_refs(2)[of tgt nds] nodes_of_refs(2)[of tgt nds] by (cases deep) auto
  show "(if deep then tgt \<in> nodes_of_opt nopt else tgt \<in> direct_opt nopt) \<Longrightarrow> w \<in> set (refs tgt) \<Longrightarrow> w \<in> set (refs_opt nopt)"
    using direct_refs(3)[of tgt nopt] nodes_of_refs(3)[of tgt nopt] by (cases deep) auto
qed

lemma reach:
  fixes Pre Post :: "visitor \<Rightarrow> bool"
  assumes base: "\<And>v. Pre v \<Longrightarrow> Post (visit tgt v)"
    and pre: "\<And>v v'. good v v' \<Longrightarrow> Pre v \<Longrightarrow> Pre v'"
    and post: "\<And>v v'. good v v' \<Longrightarrow> ntn_of (cur_scope v') w = ntn_of (cur_scope v) w \<Longrightarrow> Post v \<Longrightarrow> Post v'"
    and push: "\<And>v. deep \<Longrightarrow> Pre v \<Longrightarrow> Pre (push_scope v)"
    and pop: "\<And>v. deep \<Longrightarrow> Post v \<Longrightarrow> Post (pop_scope v)"
    and w: "w \<in> set (refs tgt)"
  shows "(if deep then tgt \<in> nodes_of nd else tgt \<in> direct nd) \<Longrightarrow> distinct (refs nd) \<Longrightarrow> Pre v \<Longrightarrow> Post (visit nd v)"
    and "(if deep then tgt \<in> nodes_of nd else tgt \<in> direct nd) \<Longrightarrow> tgt \<noteq> nd \<Longrightarrow> distinct (refs nd) \<Longrightarrow> Pre v \<Longrightarrow>
           Post (visit_class nd v)"
    and "(if deep then tgt \<in> nodes_of_list nds else tgt \<in> direct_list nds) \<Longrightarrow> distinct (refs_list nds) \<Longrightarrow> Pre v \<Longrightarrow>
           Post (visit_list nds v)"
    and "(if deep then tgt \<in> nodes_of_opt nopt else tgt \<in> direct_opt nopt) \<Longrightarrow> distinct (refs_opt nopt) \<Longrightarrow> Pre v \<Longrightarrow>
           Post (visit_opt nopt v)"
proof (induction nd v and nd v and nds v and nopt v rule: visit_visit_class_visit_list_visit_opt.induct)
  case (1 nd v)
  let ?v1 = "v\<lparr>cur_scope := set_parent (ref_of nd) (cur_parent v) (cur_scope v)\<rparr>"
  let ?v2 = "?v1\<lparr>cur_parent := Some (ref_of nd)\<rparr>"
  show ?case
  proof (cases "tgt = nd")
    case True
    with base[OF "1.prems"(3)] show ?thesis by simp
  next
    case False
    have "good v ?v2" by (simp add: good_def)
    from pre[OF this "1.prems"(3)] have p: "Pre ?v2" .
    from "1.IH"[OF refl refl "1.prems"(1) False "1.prems"(2) p] have "Post (visit_class nd ?v2)" .
    then have "Post ((visit_class nd ?v2)\<lparr>cur_parent := cur_parent ?v1\<rparr>)"
      by (rule post[rotated 2]) (simp_all add: good_def)
    then show ?thesis by (simp add: Let_def)
  qed
next
  case (2 r body v)
  from "2.prems" have t: "(if deep then tgt \<in> nodes_of_list body else tgt \<in> direct_list body)" and d: "distinct (refs_list body)"
    by (auto split: if_splits)
  from "2.IH"[OF t d "2.prems"(4)] show ?case by simp
next
  case (3 r nms v)
  then show ?case by (auto split: if_splits)
next
  case (4 r module nms level v)
  then show ?case by (auto split: if_splits)
next
  case (5 r i ctx v)
  then show ?case by (auto split: if_splits)
next
  case (6 r n v)
  then show ?case by (auto split: if_splits)
next
  case (7 r val attr ctx v)
  from "7.prems" have t: "(if deep then tgt \<in> nodes_of val else tgt \<in> direct val)" and d: "distinct (refs val)" and n: "r \<notin> set (refs val)"
    by (auto split: if_splits)
  from reach_refs(1)[OF t w] n have ne: "w \<noteq> r" by auto
  from "7.IH"[OF t d "7.prems"(4)] have "Post (visit val v)" .
  then have "Post (visit_leaf (ctx_ref ctx) (visit val v))"
    by (rule post[OF good_visit_leaf fun_cong[OF ntn_visit_leaf]])
  then have "Post (attribute_effect r (ref_of val) attr (visit_leaf (ctx_ref ctx) (visit val v)))"
    by (rule post[OF attribute_effect_good attribute_effect_ntn[OF ne]])
  then show ?case by simp
next
  case (8 r val v)
  from "8.prems" have t: "(if deep then tgt \<in> nodes_of val else tgt \<in> direct val)" and d: "distinct (refs val)"
    by (auto split: if_splits)
  from "8.IH"[OF t d "8.prems"(4)] show ?case by simp
next
  case (9 r targets val v)
  have "\<forall>v v'. good v v' \<longrightarrow> ntn_of (cur_scope v') w = ntn_of (cur_scope v) w \<longrightarrow> Post v \<longrightarrow> Post v'"
    using post by blast
  note k = keep_visit[OF this]
  have "\<forall>v v'. good v v' \<longrightarrow> Pre v \<longrightarrow> Pre v'" using pre by blast
  note q = pre_visit[OF this]
  from "9.prems" have c: "(if deep then tgt \<in> nodes_of_list targets else tgt \<in> direct_list targets) \<or> (if deep then tgt \<in> nodes_of val else tgt \<in> direct val)"
    and d1: "distinct (refs_list targets)" and d2: "distinct (refs val)"
    and dj: "set (refs_list targets) \<inter> set (refs val) = {}"
    by (auto split: if_splits)
  from c show ?case
  proof
    assume t: "(if deep then tgt \<in> nodes_of_list targets else tgt \<in> direct_list targets)"
    from reach_refs(2)[OF t w] dj have "w \<notin> set (refs val)" by auto
    from k(1)[OF "9.IH"(1)[OF t d1 "9.prems"(4)] this] show ?thesis by simp
  next
    assume t: "(if deep then tgt \<in> nodes_of val else tgt \<in> direct val)"
    from "9.IH"(2)[OF t d2 q(2)[OF "9.prems"(4)]] show ?thesis by simp
  qed
next
  case (10 r nm args body decorator_list returns v)
  have "\<forall>v v'. good v v' \<longrightarrow> ntn_of (cur_scope v') w = ntn_of (cur_scope v) w \<longrightarrow> Post v \<longrightarrow> Post v'"
    using post by blast
  note k = keep_visit[OF this]
  have "\<forall>v v'. good v v' \<longrightarrow> Pre v \<longrightarrow> Pre v'" using pre by blast
  note q = pre_visit[OF this]
  let ?p1 = "push_scope (v_define_name nm r v)"
  let ?p2 = "visit_list decorator_list ?p1"
  let ?p3 = "visit args ?p2"
  let ?p4 = "visit_opt returns ?p3"
  from "10.prems" have deep: deep by (auto split: if_splits)
  from "10.prems" deep have c: "tgt \<in> nodes_of_list decorator_list \<or> tgt \<in> nodes_of args \<or>
      tgt \<in> nodes_of_opt returns \<or> tgt \<in> nodes_of_list body"
    by auto
  from "10.prems"(3) have d1: "distinct (refs_list decorator_list)" and d2: "distinct (refs args)"
    and d3: "distinct (refs_opt returns)" and d4: "distinct (refs_list body)"
    and dj: "set (refs_list decorator_list) \<inter> set (refs args) = {}"
      "set (refs_list decorator_list) \<inter> set (refs_opt returns) = {}"
      "set (refs_list decorator_list) \<inter> set (refs_list body) = {}"
      "set (refs args) \<inter> set (refs_opt returns) = {}"
      "set (refs args) \<inter> set (refs_list body) = {}"
      "set (refs_opt returns) \<inter> set (refs_list body) = {}"
    by auto
  from push[OF deep pre[OF v_define_name_props(1) "10.prems"(4)]] have p1: "Pre ?p1" .
  have "Post (visit_list body ?p4)"
    using c
  proof (elim disjE)
    assume t: "tgt \<in> nodes_of_list decorator_list"
    with deep have t': "(if deep then tgt \<in> nodes_of_list decorator_list else tgt \<in> direct_list decorator_list)" by simp
    from nodes_of_refs(2)[OF t] w dj have n: "w \<notin> set (refs args)" "w \<notin> set (refs_opt returns)"
      "w \<notin> set (refs_list body)" by auto
    from k(2)[OF k(3)[OF k(1)[OF "10.IH"(1)[OF t' d1 p1] n(1)] n(2)] n(3)] show ?thesis .
  next
    assume t: "tgt \<in> nodes_of args"
    with deep have t': "(if deep then tgt \<in> nodes_of args else tgt \<in> direct args)" by simp
    from nodes_of_refs(1)[OF t] w dj have n: "w \<notin> set (refs_opt returns)"
      "w \<notin> set (refs_list body)" by auto
    from k(2)[OF k(3)[OF "10.IH"(2)[OF t' d2 q(2)[OF p1]] n(1)] n(2)] show ?thesis .
  next
    assume t: "tgt \<in> nodes_of_opt returns"
    with deep have t': "(if deep then tgt \<in> nodes_of_opt returns else tgt \<in> direct_opt returns)" by simp
    from nodes_of_refs(3)[OF t] w dj have n: "w \<notin> set (refs_list body)" by auto
    from k(2)[OF "10.IH"(3)[OF t' d3 q(1)[OF q(2)[OF p1]]] n] show ?thesis .
  next
    assume t: "tgt \<in> nodes_of_list body"
    with deep have t': "(if deep then tgt \<in> nodes_of_list body else tgt \<in> direct_list body)" by simp
    from "10.IH"(4)[OF t' d4 q(3)[OF q(1)[OF q(2)[OF p1]]]] show ?thesis .
  qed
  from pop[OF deep this] show ?case by simp
next
  case (11 r posonlyargs args vararg kwonlyargs kw_defaults kwarg defaults v)
  have "\<forall>v v'. good v v' \<longrightarrow> ntn_of (cur_scope v') w = ntn_of (cur_scope v) w \<longrightarrow> Post v \<longrightarrow> Post v'"
    using post by blast
  note k = keep_visit[OF this]
  have "\<forall>v v'. good v v' \<longrightarrow> Pre v \<longrightarrow> Pre v'" using pre by blast
  note q = pre_visit[OF this]
  from "11.prems" have c: "(if deep then tgt \<in> nodes_of_list defaults else tgt \<in> direct_list defaults) \<or> (if deep then tgt \<in> nodes_of_list args else tgt \<in> direct_list args) \<or>
      (if deep then tgt \<in> nodes_of_opt vararg else tgt \<in> direct_opt vararg) \<or> (if deep then tgt \<in> nodes_of_opt kwarg else tgt \<in> direct_opt kwarg)"
    by (auto split: if_splits)
  from "11.prems"(3) have d1: "distinct (refs_list defaults)" and d2: "distinct (refs_list args)"
    and d3: "distinct (refs_opt vararg)" and d4: "distinct (refs_opt kwarg)"
    and dj: "set (refs_list defaults) \<inter> set (refs_list args) = {}"
      "set (refs_list defaults) \<inter> set (refs_opt vararg) = {}"
      "set (refs_list defaults) \<inter> set (refs_opt kwarg) = {}"
      "set (refs_list args) \<inter> set (refs_opt vararg) = {}"
      "set (refs_list args) \<inter> set (refs_opt kwarg) = {}"
      "set (refs_opt vararg) \<inter> set (refs_opt kwarg) = {}"
    by auto
  note p0 = "11.prems"(4)
  from c show ?case
  proof (elim disjE)
    assume t: "(if deep then tgt \<in> nodes_of_list defaults else tgt \<in> direct_list defaults)"
    from reach_refs(2)[OF t w] dj have n: "w \<notin> set (refs_list args)" "w \<notin> set (refs_opt vararg)"
      "w \<notin> set (refs_opt kwarg)" by auto
    from k(3)[OF k(3)[OF k(2)[OF "11.IH"(1)[OF t d1 p0] n(1)] n(2)] n(3)] show ?thesis by simp
  next
    assume t: "(if deep then tgt \<in> nodes_of_list args else tgt \<in> direct_list args)"
    from reach_refs(2)[OF t w] dj have n: "w \<notin> set (refs_opt vararg)" "w \<notin> set (refs_opt kwarg)"
      by auto
    from k(3)[OF k(3)[OF "11.IH"(2)[OF t d2 q(2)[OF p0]] n(1)] n(2)] show ?thesis by simp
  next
    assume t: "(if deep then tgt \<in> nodes_of_opt vararg else tgt \<in> direct_opt vararg)"
    from reach_refs(3)[OF t w] dj have n: "w \<notin> set (refs_opt kwarg)" by auto
    from k(3)[OF "11.IH"(3)[OF t d3 q(2)[OF q(2)[OF p0]]] n] show ?thesis by simp
  next
    assume t: "(if deep then tgt \<in> nodes_of_opt kwarg else tgt \<in> direct_opt kwarg)"
    from "11.IH"(4)[OF t d4 q(3)[OF q(2)[OF q(2)[OF p0]]]] show ?thesis by simp
  qed
next
  case (12 r a annotation v)
  from "12.prems" have t: "(if deep then tgt \<in> nodes_of_opt annotation else tgt \<in> direct_opt annotation)" and d: "distinct (refs_opt annotation)"
    by (auto split: if_splits)
  from pre[OF v_define_name_props(1) "12.prems"(4)] have "Pre (v_define_name a r v)" .
  from "12.IH"[OF t d this] show ?case by simp
next
  case (13 r nm bases body decorator_list v)
  have "\<forall>v v'. good v v' \<longrightarrow> ntn_of (cur_scope v') w = ntn_of (cur_scope v) w \<longrightarrow> Post v \<longrightarrow> Post v'"
    using post by blast
  note k = keep_visit[OF this]
  have "\<forall>v v'. good v v' \<longrightarrow> Pre v \<longrightarrow> Pre v'" using pre by blast
  note q = pre_visit[OF this]
  let ?p1 = "push_scope (v_define_name nm r v)"
  from "13.prems" have deep: deep by (auto split: if_splits)
  from "13.prems" deep have c: "tgt \<in> nodes_of_list bases \<or> tgt \<in> nodes_of_list body \<or>
      tgt \<in> nodes_of_list decorator_list"
    by auto
  from "13.prems"(3) have d1: "distinct (refs_list bases)" and d2: "distinct (refs_list body)"
    and d3: "distinct (refs_list decorator_list)"
    and dj: "set (refs_list bases) \<inter> set (refs_list body) = {}"
      "set (refs_list bases) \<inter> set (refs_list decorator_list) = {}"
      "set (refs_list body) \<inter> set (refs_list decorator_list) = {}"
    by auto
  from push[OF deep pre[OF v_define_name_props(1) "13.prems"(4)]] have p1: "Pre ?p1" .
  have "Post (visit_list decorator_list (visit_list body (visit_list bases ?p1)))"
    using c
  proof (elim disjE)
    assume t: "tgt \<in> nodes_of_list bases"
    with deep have t': "(if deep then tgt \<in> nodes_of_list bases else tgt \<in> direct_list bases)" by simp
    from nodes_of_refs(2)[OF t] w dj have n: "w \<notin> set (refs_list body)"
      "w \<notin> set (refs_list decorator_list)" by auto
    from k(2)[OF k(2)[OF "13.IH"(1)[OF t' d1 p1] n(1)] n(2)] show ?thesis .
  next
    assume t: "tgt \<in> nodes_of_list body"
    with deep have t': "(if deep then tgt \<in> nodes_of_list body else tgt \<in> direct_list body)" by simp
    from nodes_of_refs(2)[OF t] w dj have n: "w \<notin> set (refs_list decorator_list)" by auto
    from k(2)[OF "13.IH"(2)[OF t' d2 q(2)[OF p1]] n] show ?thesis .
  next
    assume t: "tgt \<in> nodes_of_list decorator_list"
    with deep have t': "(if deep then tgt \<in> nodes_of_list decorator_list else tgt \<in> direct_list decorator_list)" by simp
    from "13.IH"(3)[OF t' d3 q(2)[OF q(2)[OF p1]]] show ?thesis .
  qed
  from pop[OF deep this] show ?case by simp
next
  case (14 r test body orelse v)
  have "\<forall>v v'. good v v' \<longrightarrow> ntn_of (cur_scope v') w = ntn_of (cur_scope v) w \<longrightarrow> Post v \<longrightarrow> Post v'"
    using post by blast
  note k = keep_visit[OF this]
  have "\<forall>v v'. good v v' \<longrightarrow> Pre v \<longrightarrow> Pre v'" using pre by blast
  note q = pre_visit[OF this]
  from "14.prems" have c: "(if deep then tgt \<in> nodes_of test else tgt \<in> direct test) \<or> (if deep then tgt \<in> nodes_of_list body else tgt \<in> direct_list body) \<or> (if deep then tgt \<in> nodes_of_list orelse else tgt \<in> direct_list orelse)"
    by (auto split: if_splits)
  from "14.prems"(3) have d1: "distinct (refs test)" and d2: "distinct (refs_list body)"
    and d3: "distinct (refs_list orelse)"
    and dj: "set (refs test) \<inter> set (refs_list body) = {}"
      "set (refs test) \<inter> set (refs_list orelse) = {}"
      "set (refs_list body) \<inter> set (refs_list orelse) = {}"
    by auto
  note p0 = "14.prems"(4)
  from c show ?case
  proof (elim disjE)
    assume t: "(if deep then tgt \<in> nodes_of test else tgt \<in> direct test)"
    from reach_refs(1)[OF t w] dj have n: "w \<notin> set (refs_list body)" "w \<notin> set (refs_list orelse)"
      by auto
    from k(2)[OF k(2)[OF "14.IH"(1)[OF t d1 p0] n(1)] n(2)] show ?thesis by simp
  next
    assume t: "(if deep then tgt \<in> nodes_of_list body else tgt \<in> direct_list body)"
    from reach_refs(2)[OF t w] dj have n: "w \<notin> set (refs_list orelse)" by auto
    from k(2)[OF "14.IH"(2)[OF t d2 q(1)[OF p0]] n] show ?thesis by simp
  next
    assume t: "(if deep then tgt \<in> nodes_of_list orelse else tgt \<in> direct_list orelse)"
    from "14.IH"(3)[OF t d3 q(2)[OF q(1)[OF p0]]] show ?thesis by simp
  qed
next
  case (15 r v)
  then show ?case by (auto split: if_splits)
next
  case (16 r body globals locals v)
  have "\<forall>v v'. good v v' \<longrightarrow> ntn_of (cur_scope v') w = ntn_of (cur_scope v) w \<longrightarrow> Post v \<longrightarrow> Post v'"
    using post by blast
  note k = keep_visit[OF this]
  have "\<forall>v v'. good v v' \<longrightarrow> Pre v \<longrightarrow> Pre v'" using pre by blast
  note q = pre_visit[OF this]
  from "16.prems" have c: "(if deep then tgt \<in> nodes_of body else tgt \<in> direct body) \<or> (if deep then tgt \<in> nodes_of_opt globals else tgt \<in> direct_opt globals) \<or> (if deep then tgt \<in> nodes_of_opt locals else tgt \<in> direct_opt locals)"
    by (auto split: if_splits)
  from "16.prems"(3) have d1: "distinct (refs body)" and d2: "distinct (refs_opt globals)"
    and d3: "distinct (refs_opt locals)"
    and dj: "set (refs body) \<inter> set (refs_opt globals) = {}"
      "set (refs body) \<inter> set (refs_opt locals) = {}"
      "set (refs_opt globals) \<inter> set (refs_opt locals) = {}"
    by auto
  note p0 = "16.prems"(4)
  from c show ?case
  proof (elim disjE)
    assume t: "(if deep then tgt \<in> nodes_of body else tgt \<in> direct body)"
    from reach_refs(1)[OF t w] dj have n: "w \<notin> set (refs_opt globals)" "w \<notin> set (refs_opt locals)"
      by auto
    from k(3)[OF k(3)[OF "16.IH"(1)[OF t d1 p0] n(1)] n(2)] show ?thesis by simp
  next
    assume t: "(if deep then tgt \<in> nodes_of_opt globals else tgt \<in> direct_opt globals)"
    from reach_refs(3)[OF t w] dj have n: "w \<notin> set (refs_opt locals)" by auto
    from k(3)[OF "16.IH"(2)[OF t d2 q(1)[OF p0]] n] show ?thesis by simp
  next
    assume t: "(if deep then tgt \<in> nodes_of_opt locals else tgt \<in> direct_opt locals)"
    from "16.IH"(3)[OF t d3 q(3)[OF q(1)[OF p0]]] show ?thesis by simp
  qed
next
  case (17 v)
  then show ?case by (auto split: if_splits)
next
  case (18 nd nds v)
  have "\<forall>v v'. good v v' \<longrightarrow> ntn_of (cur_scope v') w = ntn_of (cur_scope v) w \<longrightarrow> Post v \<longrightarrow> Post v'"
    using post by blast
  note k = keep_visit[OF this]
  have "\<forall>v v'. good v v' \<longrightarrow> Pre v \<longrightarrow> Pre v'" using pre by blast
  note q = pre_visit[OF this]
  from "18.prems" have c: "(if deep then tgt \<in> nodes_of nd else tgt \<in> direct nd) \<or> (if deep then tgt \<in> nodes_of_list nds else tgt \<in> direct_list nds)"
    by (auto split: if_splits)
  from "18.prems"(2) have d1: "distinct (refs nd)" and d2: "distinct (refs_list nds)"
    and dj: "set (refs nd) \<inter> set (refs_list nds) = {}"
    by auto
  from c show ?case
  proof
    assume t: "(if deep then tgt \<in> nodes_of nd else tgt \<in> direct nd)"
    from reach_refs(1)[OF t w] dj have n: "w \<notin> set (refs_list nds)" by auto
    from k(2)[OF "18.IH"(1)[OF t d1 "18.prems"(3)] n] show ?thesis by simp
  next
    assume t: "(if deep then tgt \<in> nodes_of_list nds else tgt \<in> direct_list nds)"
    from "18.IH"(2)[OF t d2 q(1)[OF "18.prems"(3)]] show ?thesis by simp
  qed
next
  case (19 v)
  then show ?case by (auto split: if_splits)
next
  case (20 nd v)
  from "20.prems" have t: "(if deep then tgt \<in> nodes_of nd else tgt \<in> direct nd)" and d: "distinct (refs nd)"
    by (auto split: if_splits)
  from "20.IH"[OF t d "20.prems"(3)] show ?case by simp
qed

subsection \<open>Reads and definitions in a scope\<close>

lemma names_bound_in: "names sc x = Some n \<Longrightarrow> bound_in n sc"
  by (cases sc) (auto simp: ran_def)

lemma good_inv: "good v v' \<Longrightarrow> inv_sc (cur_scope v) (names_heap v) \<Longrightarrow> inv_sc (cur_scope v') (names_heap v')"
  by (simp add: good_def grows_def)

lemma good_names: "good v v' \<Longrightarrow> names (cur_scope v) x = Some n \<Longrightarrow> names (cur_scope v') x = Some n"
  by (auto simp: good_def grows_def intro: scope_le_names)

lemma good_depth: "good v v' \<Longrightarrow> depth (cur_scope v') = depth (cur_scope v)"
  by (auto simp: good_def grows_def intro: scope_le_depth)

lemma good_heap: "good v v' \<Longrightarrow> heap_le (names_heap v) (names_heap v')"
  by (simp add: good_def grows_def)

lemma good_fresh: "good v v' \<Longrightarrow> n < length (names_heap v) \<Longrightarrow> \<not> bound_in n (cur_scope v) \<Longrightarrow> \<not> bound_in n (cur_scope v')"
  by (auto simp: good_def grows_def)

text \<open>A read of \<^verbatim>\<open>x\<close> at a place where \<^verbatim>\<open>x\<close> is bound in the current scope, or where
  the current scope is the root, resolves to the \<^verbatim>\<open>Name\<close> that the current scope binds
  to \<^verbatim>\<open>x\<close>.\<close>

lemma read_base:
  assumes i: "inv_sc (cur_scope v) (names_heap v)"
    and p: "depth (cur_scope v) = 0 \<or> names (cur_scope v) x \<noteq> None"
  shows "\<exists>n. names (cur_scope (visit (Name r x (Load c)) v)) x = Some n \<and>
             ntn_of (cur_scope (visit (Name r x (Load c)) v)) r = Some n \<and>
             n < length (names_heap (visit (Name r x (Load c)) v)) \<and>
             r \<in> set (name_reads (names_heap (visit (Name r x (Load c)) v) ! n))"
proof -
  let ?u = "v\<lparr>cur_scope := set_parent r (cur_parent v) (cur_scope v), cur_parent := Some r\<rparr>"
  obtain n sc hp where l: "lookup_name x (cur_scope ?u) (names_heap ?u) = (n, sc, hp)"
    by (cases "lookup_name x (cur_scope ?u) (names_heap ?u)")
  have e: "name_effect r x (Load c) ?u =
           ?u\<lparr>cur_scope := set_name_for_node r n sc, names_heap := Name_add_reference n r hp\<rparr>"
    by (rule name_effect_Load[OF l])
  from i have iu: "inv_sc (cur_scope ?u) (names_heap ?u)" by simp
  from lookup_name_grows(3)[OF l iu] have n: "n < length hp" by simp
  have b: "names sc x = Some n"
  proof (cases "names (cur_scope ?u) x")
    case (Some m)
    from lookup_name_top[OF Some, of "names_heap ?u"] l show ?thesis using Some by simp
  next
    case None
    with p have "depth (cur_scope ?u) = 0" by simp
    from lookup_name_root[OF this l] show ?thesis .
  qed
  have v: "visit (Name r x (Load c)) v =
           (visit_leaf (ctx_ref (Load c)) (name_effect r x (Load c) ?u))\<lparr>cur_parent := cur_parent v\<rparr>"
    by (simp add: Let_def del: name_effect.simps)
  show ?thesis unfolding v e using b n
    by (simp add: visit_leaf_def Name_add_reference_read)
qed

lemma read_pre:
  assumes "good v v'"
    and "inv_sc (cur_scope v) (names_heap v) \<and> (depth (cur_scope v) = 0 \<or> names (cur_scope v) x \<noteq> None)"
  shows "inv_sc (cur_scope v') (names_heap v') \<and> (depth (cur_scope v') = 0 \<or> names (cur_scope v') x \<noteq> None)"
proof -
  from assms have i: "inv_sc (cur_scope v') (names_heap v')" by (auto intro: good_inv)
  from assms(2) have "depth (cur_scope v') = 0 \<or> names (cur_scope v') x \<noteq> None"
  proof (elim conjE disjE)
    assume "depth (cur_scope v) = 0"
    with good_depth[OF assms(1)] show ?thesis by simp
  next
    assume "names (cur_scope v) x \<noteq> None"
    then obtain n where "names (cur_scope v) x = Some n" by auto
    from good_names[OF assms(1) this] show ?thesis by simp
  qed
  with i show ?thesis by simp
qed

lemma read_post:
  assumes g: "good v v'" and e: "ntn_of (cur_scope v') r = ntn_of (cur_scope v) r"
    and q: "\<exists>n. names (cur_scope v) x = Some n \<and> ntn_of (cur_scope v) r = Some n \<and>
                n < length (names_heap v) \<and> r \<in> set (name_reads (names_heap v ! n))"
  shows "\<exists>n. names (cur_scope v') x = Some n \<and> ntn_of (cur_scope v') r = Some n \<and>
             n < length (names_heap v') \<and> r \<in> set (name_reads (names_heap v' ! n))"
proof -
  from q obtain n where n: "names (cur_scope v) x = Some n" "ntn_of (cur_scope v) r = Some n"
    "n < length (names_heap v)" "r \<in> set (name_reads (names_heap v ! n))" by blast
  from good_heap[OF g] n(3) have "n < length (names_heap v')" by (auto dest: heap_le_length)
  with good_names[OF g n(1)] e n(2) heap_le_reads[OF good_heap[OF g] n(3) n(4)]
  show ?thesis by auto
qed

lemma reads_resolve:
  assumes "inv_sc (cur_scope v) (names_heap v)"
    and "depth (cur_scope v) = 0 \<or> names (cur_scope v) x \<noteq> None"
  shows "Name r x (Load c) \<in> direct nd \<Longrightarrow> distinct (refs nd) \<Longrightarrow>
         \<exists>n. names (cur_scope (visit nd v)) x = Some n \<and>
             ntn_of (cur_scope (visit nd v)) r = Some n \<and>
             n < length (names_heap (visit nd v)) \<and>
             r \<in> set (name_reads (names_heap (visit nd v) ! n))"
    and "Name r x (Load c) \<in> direct_list nds \<Longrightarrow> distinct (refs_list nds) \<Longrightarrow>
         \<exists>n. names (cur_scope (visit_list nds v)) x = Some n \<and>
             ntn_of (cur_scope (visit_list nds v)) r = Some n \<and>
             n < length (names_heap (visit_list nds v)) \<and>
             r \<in> set (name_reads (names_heap (visit_list nds v) ! n))"
proof -
  let ?Pre = "\<lambda>v. inv_sc (cur_scope v) (names_heap v) \<and> (depth (cur_scope v) = 0 \<or> names (cur_scope v) x \<noteq> None)"
  let ?Post = "\<lambda>v. \<exists>n. names (cur_scope v) x = Some n \<and> ntn_of (cur_scope v) r = Some n \<and>
                  n < length (names_heap v) \<and> r \<in> set (name_reads (names_heap v ! n))"
  have base: "\<And>v. ?Pre v \<Longrightarrow> ?Post (visit (Name r x (Load c)) v)"
    using read_base by blast
  have pre: "\<And>v v'. good v v' \<Longrightarrow> ?Pre v \<Longrightarrow> ?Pre v'"
    by (rule read_pre)
  have post: "\<And>v v'. good v v' \<Longrightarrow> ntn_of (cur_scope v') r = ntn_of (cur_scope v) r \<Longrightarrow> ?Post v \<Longrightarrow> ?Post v'"
    by (rule read_post)
  have w: "r \<in> set (refs (Name r x (Load c)))" by simp
  from assms have q: "?Pre v" by simp
  show "?Post (visit nd v)" if a: "Name r x (Load c) \<in> direct nd" and d: "distinct (refs nd)"
  proof -
    from a have m: "(if False then Name r x (Load c) \<in> nodes_of nd else Name r x (Load c) \<in> direct nd)"
      by simp
    show ?thesis
      by (rule reach(1)[where Pre = ?Pre and Post = ?Post and deep = False and w = r,
            OF base pre post _ _ w m d q]) simp_all
  qed
  show "?Post (visit_list nds v)" if a: "Name r x (Load c) \<in> direct_list nds" and d: "distinct (refs_list nds)"
  proof -
    from a have m: "(if False then Name r x (Load c) \<in> nodes_of_list nds else Name r x (Load c) \<in> direct_list nds)"
      by simp
    show ?thesis
      by (rule reach(3)[where Pre = ?Pre and Post = ?Post and deep = False and w = r,
            OF base pre post _ _ w m d q]) simp_all
  qed
qed

text \<open>A node that defines \<^verbatim>\<open>x\<close> (a parameter, or a \<^verbatim>\<open>Name\<close> that is stored to) is
  recorded on the \<^verbatim>\<open>Name\<close> that its scope binds to \<^verbatim>\<open>x\<close>.\<close>

lemma def_base:
  assumes i: "inv_sc (cur_scope v) (names_heap v)"
    and t: "tgt = arg p x ann \<or> tgt = Name p x (Param c) \<or> tgt = Name p x (Store c)"
  shows "\<exists>n. names (cur_scope (visit tgt v)) x = Some n \<and> recorded p n (names_heap (visit tgt v))"
proof -
  let ?u = "v\<lparr>cur_scope := set_parent p (cur_parent v) (cur_scope v), cur_parent := Some p\<rparr>"
  from i have iu: "inv_sc (cur_scope ?u) (names_heap ?u)" by simp
  from v_define_name_props(3)[of x p ?u] iu obtain n
    where n: "names (cur_scope (v_define_name x p ?u)) x = Some n"
      "recorded p n (names_heap (v_define_name x p ?u))" by blast
  have k: "\<exists>n. names (cur_scope v') x = Some n \<and> recorded p n (names_heap v')"
    if "good (v_define_name x p ?u) v'" for v'
    using good_names[OF that n(1)] heap_le_recorded[OF good_heap[OF that] n(2)] by blast
  from t show ?thesis
  proof (elim disjE)
    assume e: "tgt = arg p x ann"
    have "good (v_define_name x p ?u) (visit tgt v)"
      unfolding e using good_trans[OF visit_good(4)[of "v_define_name x p ?u" ann] good_cur_parent(1)]
      by (simp add: Let_def)
    from k[OF this] show ?thesis .
  next
    assume e: "tgt = Name p x (Param c)"
    have "good (v_define_name x p ?u) (visit tgt v)"
      unfolding e using good_trans[OF good_visit_leaf good_cur_parent(1)]
      by (simp add: Let_def)
    from k[OF this] show ?thesis .
  next
    assume e: "tgt = Name p x (Store c)"
    have "good (v_define_name x p ?u) (visit tgt v)"
      unfolding e using good_trans[OF good_visit_leaf good_cur_parent(1)]
      by (simp add: Let_def)
    from k[OF this] show ?thesis .
  qed
qed

lemma defs_recorded:
  assumes "inv_sc (cur_scope v) (names_heap v)"
    and t: "tgt = arg p x ann \<or> tgt = Name p x (Param c) \<or> tgt = Name p x (Store c)"
    and "tgt \<in> direct nd" and "distinct (refs nd)"
  shows "\<exists>n. names (cur_scope (visit nd v)) x = Some n \<and> recorded p n (names_heap (visit nd v))"
proof -
  let ?Pre = "\<lambda>v. inv_sc (cur_scope v) (names_heap v)"
  let ?Post = "\<lambda>v. \<exists>n. names (cur_scope v) x = Some n \<and> recorded p n (names_heap v)"
  have base: "\<And>v. ?Pre v \<Longrightarrow> ?Post (visit tgt v)"
    using def_base[OF _ t] by blast
  have pre: "\<And>v v'. good v v' \<Longrightarrow> ?Pre v \<Longrightarrow> ?Pre v'"
    by (rule good_inv)
  have post: "\<And>v v'. good v v' \<Longrightarrow> ntn_of (cur_scope v') p = ntn_of (cur_scope v) p \<Longrightarrow> ?Post v \<Longrightarrow> ?Post v'"
    using good_names heap_le_recorded[OF good_heap] by blast
  from t have w: "p \<in> set (refs tgt)" by auto
  from assms(3) have m: "(if False then tgt \<in> nodes_of nd else tgt \<in> direct nd)" by simp
  show ?thesis
    by (rule reach(1)[where Pre = ?Pre and Post = ?Post and deep = False and w = p,
          OF base pre post _ _ w m assms(4) assms(1)]) simp_all
qed

subsection \<open>A function with a parameter\<close>

lemma direct_self: "nd \<in> direct nd"
  by (cases nd) simp_all

lemma direct_list_mem: "nd \<in> set nds \<Longrightarrow> nd \<in> direct_list nds"
  by (induction nds) (auto simp: direct_self)

lemma bound_in_pop: "\<not> bound_in n sc \<Longrightarrow> \<not> bound_in n (pop_scope_of sc)"
  by (cases sc) simp_all

text \<open>After the visit of a function with the parameter \<^verbatim>\<open>x\<close>, a read of \<^verbatim>\<open>x\<close> in the
  scope of its body is mapped to a \<^verbatim>\<open>Name\<close> on which the parameter is recorded and that
  no scope of the chain binds.\<close>

lemma inv_sc_sep: "inv_sc sc hp \<Longrightarrow> sc = Scope ns q \<Longrightarrow> names sc x = Some n \<Longrightarrow> \<not> bound_in n q"
  by auto

lemma depth_Suc_Scope: "depth sc = Suc k \<Longrightarrow> \<exists>ns q. sc = Scope ns q"
  by (cases sc) simp_all

lemma function_base:
  assumes i: "inv_sc (cur_scope v) (names_heap v)"
    and F: "F = FunctionDef f fn (arguments ar posonlyargs args vararg kwonlyargs kw_defaults kwarg defaults)
                  body decorator_list returns"
    and d: "distinct (refs F)"
    and par: "param \<in> set args \<union> set_option vararg \<union> set_option kwarg"
    and pdef: "param = arg p x ann \<or> param = Name p x (Param c)"
    and rd: "Name r1 x (Load c1) \<in> direct_list body"
  shows "\<exists>n. ntn_of (cur_scope (visit F v)) r1 = Some n \<and> recorded p n (names_heap (visit F v)) \<and>
             r1 \<in> set (name_reads (names_heap (visit F v) ! n)) \<and>
             name_id (names_heap (visit F v) ! n) = x \<and> \<not> bound_in n (cur_scope (visit F v))"
proof -
  let ?A = "arguments ar posonlyargs args vararg kwonlyargs kw_defaults kwarg defaults"
  let ?u = "v\<lparr>cur_scope := set_parent f (cur_parent v) (cur_scope v), cur_parent := Some f\<rparr>"
  let ?u1 = "v_define_name fn f ?u"
  define p1 where "p1 = push_scope ?u1"
  define p2 where "p2 = visit_list decorator_list p1"
  define p3 where "p3 = visit ?A p2"
  define p4 where "p4 = visit_opt returns p3"
  define p5 where "p5 = visit_list body p4"
  from d F have dA: "distinct (refs ?A)" and dB: "distinct (refs_list body)" by auto
  from i have "inv_sc (cur_scope ?u) (names_heap ?u)" by simp
  from good_inv[OF v_define_name_props(1) this] have "inv_sc (cur_scope ?u1) (names_heap ?u1)" .
  then have i1: "inv_sc (cur_scope p1) (names_heap p1)" by (simp add: push_scope_def p1_def)
  have g12: "good p1 p2" unfolding p2_def by (rule visit_good)
  have g23: "good p2 p3" unfolding p3_def by (rule visit_good)
  have g34: "good p3 p4" unfolding p4_def by (rule visit_good)
  have g45: "good p4 p5" unfolding p5_def by (rule visit_good)
  from good_inv[OF g12 i1] have i2: "inv_sc (cur_scope p2) (names_heap p2)" .
  from par have pin: "param \<in> direct ?A"
    by (auto simp: direct_list_mem direct_self elim: option.set_cases)
  from pdef have pd: "param = arg p x ann \<or> param = Name p x (Param c) \<or> param = Name p x (Store c)"
    by auto
  from defs_recorded[OF i2 pd pin dA] obtain n
    where n3: "names (cur_scope p3) x = Some n" "recorded p n (names_heap p3)"
    unfolding p3_def by blast
  from good_inv[OF g34 good_inv[OF g23 i2]] have i4: "inv_sc (cur_scope p4) (names_heap p4)" .
  from good_names[OF g34 n3(1)] have n4: "names (cur_scope p4) x = Some n" .
  then have "depth (cur_scope p4) = 0 \<or> names (cur_scope p4) x \<noteq> None" by simp
  from reads_resolve(2)[OF i4 this rd dB] obtain n'
    where n5: "names (cur_scope p5) x = Some n'" "ntn_of (cur_scope p5) r1 = Some n'"
      "n' < length (names_heap p5)" "r1 \<in> set (name_reads (names_heap p5 ! n'))"
    unfolding p5_def by blast
  from good_names[OF g45 n4] n5(1) have e: "n' = n" by simp
  from heap_le_recorded[OF good_heap[OF good_trans[OF g34 g45]] n3(2)]
  have r5: "recorded p n (names_heap p5)" .
  from good_inv[OF g45 i4] have i5: "inv_sc (cur_scope p5) (names_heap p5)" .
  from inv_sc_names[OF i5 n5(1)] e have id5: "name_id (names_heap p5 ! n) = x" by simp
  have "depth (cur_scope p5) = depth (cur_scope p1)"
    using good_depth[OF good_trans[OF good_trans[OF g12 g23] good_trans[OF g34 g45]]] .
  then have "depth (cur_scope p5) = Suc (depth (cur_scope ?u1))" by (simp add: p1_def push_scope_def)
  from depth_Suc_Scope[OF this] obtain ns q where sc5: "cur_scope p5 = Scope ns q" by blast
  from inv_sc_sep[OF i5 sc5 n5(1)] e have nb: "\<not> bound_in n q" by simp
  have vF: "visit F v = (pop_scope p5)\<lparr>cur_parent := cur_parent v\<rparr>"
    unfolding F p5_def p4_def p3_def p2_def p1_def by (simp add: Let_def)
  from n5(2,4) r5 id5 nb show ?thesis
    unfolding vF e by (intro exI[of _ n]) (simp add: pop_scope_def sc5)
qed

lemma nodes_of_distinct:
  "tgt \<in> nodes_of nd \<Longrightarrow> distinct (refs nd) \<Longrightarrow> distinct (refs tgt)"
  "tgt \<in> nodes_of_list nds \<Longrightarrow> distinct (refs_list nds) \<Longrightarrow> distinct (refs tgt)"
  "tgt \<in> nodes_of_opt nopt \<Longrightarrow> distinct (refs_opt nopt) \<Longrightarrow> distinct (refs tgt)"
  by (induction nd and nds and nopt rule: nodes_of_nodes_of_list_nodes_of_opt.induct) auto

lemma param_post:
  assumes g: "good v v'" and e: "ntn_of (cur_scope v') r1 = ntn_of (cur_scope v) r1"
    and q: "\<exists>n. ntn_of (cur_scope v) r1 = Some n \<and> recorded p n (names_heap v) \<and>
                r1 \<in> set (name_reads (names_heap v ! n)) \<and>
                name_id (names_heap v ! n) = x \<and> \<not> bound_in n (cur_scope v)"
  shows "\<exists>n. ntn_of (cur_scope v') r1 = Some n \<and> recorded p n (names_heap v') \<and>
             r1 \<in> set (name_reads (names_heap v' ! n)) \<and>
             name_id (names_heap v' ! n) = x \<and> \<not> bound_in n (cur_scope v')"
proof -
  from q obtain n where n: "ntn_of (cur_scope v) r1 = Some n" "recorded p n (names_heap v)"
    "r1 \<in> set (name_reads (names_heap v ! n))" "name_id (names_heap v ! n) = x"
    "\<not> bound_in n (cur_scope v)" by blast
  from n(2) have l: "n < length (names_heap v)" by (simp add: recorded_def)
  note h = good_heap[OF g]
  from heap_le_id[OF h l] n(4) have "name_id (names_heap v' ! n) = x" by simp
  with e n(1) heap_le_recorded[OF h n(2)] heap_le_reads[OF h l n(3)] good_fresh[OF g l n(5)]
  show ?thesis by auto
qed

lemma function_reached:
  assumes i: "inv_sc (cur_scope v) (names_heap v)"
    and F: "F = FunctionDef f fn (arguments ar posonlyargs args vararg kwonlyargs kw_defaults kwarg defaults)
                  body decorator_list returns"
    and m: "F \<in> nodes_of nd"
    and d: "distinct (refs nd)"
    and par: "param \<in> set args \<union> set_option vararg \<union> set_option kwarg"
    and pdef: "param = arg p x ann \<or> param = Name p x (Param c)"
    and rd: "Name r1 x (Load c1) \<in> direct_list body"
  shows "\<exists>n. ntn_of (cur_scope (visit nd v)) r1 = Some n \<and> recorded p n (names_heap (visit nd v)) \<and>
             r1 \<in> set (name_reads (names_heap (visit nd v) ! n)) \<and>
             name_id (names_heap (visit nd v) ! n) = x \<and> \<not> bound_in n (cur_scope (visit nd v))"
proof -
  let ?Pre = "\<lambda>v. inv_sc (cur_scope v) (names_heap v)"
  let ?Post = "\<lambda>v. \<exists>n. ntn_of (cur_scope v) r1 = Some n \<and> recorded p n (names_heap v) \<and>
                  r1 \<in> set (name_reads (names_heap v ! n)) \<and>
                  name_id (names_heap v ! n) = x \<and> \<not> bound_in n (cur_scope v)"
  from nodes_of_distinct(1)[OF m d] have dF: "distinct (refs F)" .
  have base: "\<And>v. ?Pre v \<Longrightarrow> ?Post (visit F v)"
    by (rule function_base[OF _ F dF par pdef rd])
  have pre: "\<And>v v'. good v v' \<Longrightarrow> ?Pre v \<Longrightarrow> ?Pre v'"
    by (rule good_inv)
  have post: "\<And>v v'. good v v' \<Longrightarrow> ntn_of (cur_scope v') r1 = ntn_of (cur_scope v) r1 \<Longrightarrow> ?Post v \<Longrightarrow> ?Post v'"
    by (rule param_post)
  have push: "\<And>v. True \<Longrightarrow> ?Pre v \<Longrightarrow> ?Pre (push_scope v)"
    by (simp add: push_scope_def)
  have pop: "\<And>v. True \<Longrightarrow> ?Post v \<Longrightarrow> ?Post (pop_scope v)"
    by (auto simp: pop_scope_def dest: bound_in_pop)
  from direct_refs(2)[OF rd] have "r1 \<in> set (refs_list body)" by simp
  then have w: "r1 \<in> set (refs F)" by (simp add: F)
  from m have m': "(if True then F \<in> nodes_of nd else F \<in> direct nd)" by simp
  show ?thesis
    by (rule reach(1)[where Pre = ?Pre and Post = ?Post and deep = True and w = r1,
          OF base pre post push pop w m' d i])
qed

subsection \<open>Shadowing\<close>




section \<open>Properties of the annotator\<close>

subsection \<open>Steps in sequence\<close>

lemma and_then_Inl: "m a = (Inl e, a1) \<Longrightarrow> and_then m f a = (Inl e, a1)"
  by (simp add: and_then_def)

lemma and_then_Inr_apply: "m a = (Inr x, a1) \<Longrightarrow> and_then m f a = f x a1"
  by (simp add: and_then_def)

lemma next_do_Inl: "m a = (Inl e, a1) \<Longrightarrow> next_do m n a = (Inl e, a1)"
  by (simp add: next_do_def and_then_Inl)

lemma next_do_Inr_apply: "m a = (Inr x, a1) \<Longrightarrow> next_do m n a = n a1"
  by (simp add: next_do_def and_then_def)

lemma parse_attr_val_props:
  "parse_attr_val v a = (res, a') \<Longrightarrow> node_props a' = node_props a"
  by (cases v)
     (auto simp: token_def ws_def tokens_next_def tokens_next_of_type_def tokens_whitespace_def
           split: prod.splits sum.splits list.splits if_splits option.splits)

lemma attr_parts_other:
  "attr_parts r nm vals a = (res, a') \<Longrightarrow> k \<noteq> (r, nm) \<Longrightarrow> node_props a' k = node_props a k"
proof (induction vals arbitrary: a)
  case Nil
  then show ?case by (simp add: done_with_def)
next
  case (Cons v vals)
  obtain x a1 where p: "parse_attr_val v a = (x, a1)" by (cases "parse_attr_val v a")
  have p1: "node_props a1 = node_props a" using p by (rule parse_attr_val_props)
  show ?case
  proof (cases x)
    case (Inl e)
    with p Cons.prems(1) have "a' = a1" by (simp add: and_then_def)
    with p1 show ?thesis by simp
  next
    case (Inr s)
    with p Cons.prems(1) have "attr_parts r nm vals (appendprop r nm s a1) = (res, a')"
      by (simp add: and_then_def next_do_def modify_def)
    from Cons.IH[OF this Cons.prems(2)] Cons.prems(2) p1 show ?thesis
      by (simp add: appendprop_def setprop_def)
  qed
qed

lemma attr_deps_tokens: "tokens (attr_deps r flds deps a) = tokens a"
  by (induction deps arbitrary: a) (simp_all add: setprop_def)

lemma attr_deps_other:
  "(\<And>dep. dep \<in> set deps \<Longrightarrow> k \<noteq> (r, dep @ ''__src'')) \<Longrightarrow>
     node_props (attr_deps r flds deps a) k = node_props a k"
  by (induction deps arbitrary: a) (simp_all add: setprop_def)

lemma attr_deps_snapshot:
  "dep \<in> set deps \<Longrightarrow> node_props (attr_deps r flds deps a) (r, dep @ ''__src'') = Some (flds dep)"
proof (induction deps arbitrary: a)
  case Nil
  then show ?case by simp
next
  case (Cons d deps)
  show ?case
  proof (cases "dep \<in> set deps")
    case True
    then show ?thesis using Cons.IH by simp
  next
    case False
    with Cons.prems have d: "d = dep" by simp
    have "node_props (attr_deps r flds deps (setprop r (dep @ ''__src'') (flds dep) a)) (r, dep @ ''__src'')
          = node_props (setprop r (dep @ ''__src'') (flds dep) a) (r, dep @ ''__src'')"
      using False by (intro attr_deps_other) auto
    then show ?thesis using d by (simp add: setprop_def)
  qed
qed

lemma attr_other:
  "attr r flds nm vals deps a = (res, a') \<Longrightarrow> k \<noteq> (r, nm) \<Longrightarrow>
   (\<And>dep. dep \<in> set deps \<Longrightarrow> k \<noteq> (r, dep @ ''__src'')) \<Longrightarrow>
     node_props a' k = node_props a k"
  by (simp add: attr_def next_do_def and_then_def modify_def attr_parts_other attr_deps_other)

lemma attr_parts_text:
  "attr_parts r nm vals a = (Inr (), a') \<Longrightarrow> vals \<noteq> [] \<Longrightarrow>
     \<exists>s. node_props a' (r, nm) = Some (PStr s)"
proof (induction vals arbitrary: a)
  case Nil
  then show ?case by simp
next
  case (Cons v vals)
  from Cons.prems(1) obtain s a1 where p: "parse_attr_val v a = (Inr s, a1)"
    and rest: "attr_parts r nm vals (appendprop r nm s a1) = (Inr (), a')"
    by (auto simp: and_then_def next_do_def modify_def split: prod.splits sum.splits)
  show ?case
  proof (cases vals)
    case Nil
    with rest have "a' = appendprop r nm s a1" by (simp add: done_with_def)
    then show ?thesis by (simp add: appendprop_def setprop_def)
  next
    case (Cons v' vs)
    with Cons.IH[OF rest] show ?thesis by simp
  qed
qed

lemma attr_parts_append:
  "attr_parts r nm pre a = (Inr (), a1) \<Longrightarrow> attr_parts r nm (pre @ post) a = attr_parts r nm post a1"
proof (induction pre arbitrary: a)
  case Nil
  then show ?case by (simp add: done_with_def)
next
  case (Cons v pre)
  from Cons.prems obtain s a0 where p: "parse_attr_val v a = (Inr s, a0)"
    and rest: "attr_parts r nm pre (appendprop r nm s a0) = (Inr (), a1)"
    by (auto simp: and_then_def next_do_def modify_def split: prod.splits sum.splits)
  from Cons.IH[OF rest] p show ?case by (simp add: and_then_def next_do_def modify_def)
qed

lemma visit_stmts_append:
  "visit_stmts f pre a = (Inr (), a1) \<Longrightarrow> visit_stmts f (pre @ post) a = visit_stmts f post a1"
proof (induction pre arbitrary: a)
  case Nil
  then show ?case by (simp add: done_with_def)
next
  case (Cons s pre)
  from Cons.prems obtain a0 where p: "f s a = (Inr (), a0)"
    and rest: "visit_stmts f pre a0 = (Inr (), a1)"
    by (auto simp: and_then_def next_do_def split: prod.splits sum.splits)
  from Cons.IH[OF rest] p show ?case by (simp add: and_then_def next_do_def)
qed

subsection \<open>What a successful step has run\<close>

lemma and_then_Inr:
  "and_then m f a = (Inr y, a') \<longleftrightarrow> (\<exists>x a1. m a = (Inr x, a1) \<and> f x a1 = (Inr y, a'))"
  by (auto simp: and_then_def split: prod.splits sum.splits)

lemma next_do_Inr:
  "next_do m n a = (Inr y, a') \<longleftrightarrow> (\<exists>x a1. m a = (Inr x, a1) \<and> n a1 = (Inr y, a'))"
  by (simp add: next_do_def and_then_Inr)

lemma spaced_Inr:
  "spaced r f a = (Inr y, a') \<Longrightarrow> \<exists>a1 a2. f a1 = (Inr (), a2)"
  by (auto simp: spaced_def next_do_Inr)

lemma visit_stmts_Inr:
  "visit_stmts f nds a = (Inr y, a') \<Longrightarrow> nd \<in> set nds \<Longrightarrow> \<exists>a1 a2. f nd a1 = (Inr (), a2)"
proof (induction nds arbitrary: a)
  case Nil then show ?case by simp
next
  case (Cons n nds)
  from Cons.prems(1) obtain a1 where 1: "f n a = (Inr (), a1)" and 2: "visit_stmts f nds a1 = (Inr y, a')"
    by (auto simp: next_do_Inr)
  show ?case
  proof (cases "nd = n")
    case True with 1 show ?thesis by blast
  next
    case False with Cons.prems(2) Cons.IH[OF 2] show ?thesis by simp
  qed
qed

lemma else_block_Inr:
  "else_block f r nds a = (Inr y, a') \<Longrightarrow> nd \<in> set nds \<Longrightarrow> \<exists>a1 a2. f nd a1 = (Inr (), a2)"
  by (auto simp: else_block_def next_do_Inr dest: visit_stmts_Inr)

lemma visit_orelse_Inr:
  assumes "visit_orelse f r nds a = (Inr y, a')" and "nd \<in> set nds"
  shows "\<exists>a1 a2. f nd a1 = (Inr (), a2)"
proof (cases nds)
  case Nil with assms show ?thesis by simp
next
  case (Cons n rest)
  show ?thesis
  proof (cases rest)
    case Nil
    with Cons assms have nd: "nd = n" by simp
    from assms(1) Cons Nil have
      "(\<exists>a1. f n a1 = (Inr y, a')) \<or> else_block f r [n] a = (Inr y, a') \<or>
       (\<exists>a1. else_block f r [n] a1 = (Inr y, a'))"
      by (auto simp: and_then_Inr next_do_Inr split: if_splits)
    then show ?thesis using nd by (auto dest: else_block_Inr[where nd = n])
  next
    case (Cons n' rest')
    with \<open>nds = n # rest\<close> assms show ?thesis by (auto dest: else_block_Inr)
  qed
qed

text \<open>The definitions unfolded to run the annotator on given tokens.\<close>

lemmas ann_eval =
  annotate_def new_AstAnnotator_def tk_def no_scope_def spaced_def parenthesizable_def prefix_def
  suffix_def attr_def next_do_def and_then_def modify_def done_with_def raise_def token_only_def
  token_def ws_def tokens_next_def tokens_next_of_type_def tokens_whitespace_def is_whitespace_def
  appendprop_def setprop_def prop_text_def node_prop_def check_is_elif_def tokens_next_name_def
  else_block_def occurs_in_def hint_open_def hint_closed_def no_fields_def lookup_field_def upt_rec

subsection \<open>The \<^verbatim>\<open>elif\<close> chain\<close>

lemma next_do_assoc: "next_do (next_do m n) k = next_do m (next_do n k)"
  by (rule ext) (simp add: next_do_def and_then_def split: prod.splits sum.splits)

lemma next_do_done: "next_do m (done_with ()) = m"
  by (rule ext) (simp add: next_do_def and_then_def done_with_def split: prod.splits sum.splits)

lemma next_do_from: "f a = g b \<Longrightarrow> next_do f k a = next_do g k b"
  by (simp add: next_do_def and_then_def)

text \<open>
  Claim C9. Take the visit of an \<^verbatim>\<open>If\<close> node whose \<^verbatim>\<open>orelse\<close> is exactly one \<^verbatim>\<open>If\<close> node,
  at the point where its prefix, its keyword, its test, the \<^verbatim>\<open>:\<close> and its body have
  been annotated. The annotator decides by the next keyword or name token of the
  stream, which it looks at without consuming anything. When that token is \<^verbatim>\<open>elif\<close>, the
  nested \<^verbatim>\<open>If\<close> gets the marker \<^verbatim>\<open>is_elif\<close> and is visited at once, no token having
  been consumed for the outer node, and its visit expects the keyword \<^verbatim>\<open>elif\<close>. In
  every other case the annotator takes the whitespace before \<^verbatim>\<open>else\<close>, the keyword
  \<^verbatim>\<open>else\<close>, the \<^verbatim>\<open>:\<close> with the whitespace around it, and then visits the nested \<^verbatim>\<open>If\<close> as
  the statement of a block, without setting the marker. The suffix of the outer node
  follows in both cases.
\<close>

theorem elif_decided_by_next_keyword:
  assumes pre: "prefix r a = (Inr (), a0)"
    and kw: "token_only (if truthy (node_prop r ''is_elif'' a0) then ''elif'' else ''if'') a0 = (Inr (), a1)"
    and tst: "a_visit sm test a1 = (Inr (), a2)"
    and tsf: "attr r (node_fields (If_stmt r test body [If_stmt r' test' body' orelse']))
                ''testsuffix'' [Ws False, Tok '':'', Ws False] [] a2 = (Inr (), a3)"
    and bdy: "visit_stmts (a_visit sm) body a3 = (Inr (), a4)"
    and nxt: "tokens_next_name (tokens a4) = Inr tok"
  shows "a_visit sm (If_stmt r test body [If_stmt r' test' body' orelse']) a =
           (if tok_text tok = ''elif''
            then next_do (a_visit sm (If_stmt r' test' body' orelse')) (suffix r True)
                   (setprop r' ''is_elif'' (PBool True) a4)
            else next_do (attr r no_fields ''elseprefix'' [Ws False] [])
                (next_do (token_only ''else'')
                (next_do (attr r no_fields ''elsesuffix'' [Ws False, Tok '':'', Ws False] [])
                (next_do (a_visit sm (If_stmt r' test' body' orelse')) (suffix r True)))) a4) \<and>
         tokens (setprop r' ''is_elif'' (PBool True) a4) = tokens a4 \<and>
         a_visit sm (If_stmt r' test' body' orelse') (setprop r' ''is_elif'' (PBool True) a4) =
           spaced r'
             (next_do (token_only ''elif'')
             (next_do (a_visit sm test')
             (next_do (attr r' (node_fields (If_stmt r' test' body' orelse')) ''testsuffix''
                         [Ws False, Tok '':'', Ws False] [])
             (next_do (visit_stmts (a_visit sm) body')
                      (visit_orelse (a_visit sm) r' orelse')))))
             (setprop r' ''is_elif'' (PBool True) a4)"
proof -
  let ?nd = "If_stmt r' test' body' orelse'"
  let ?out = "If_stmt r test body [?nd]"
  let ?a5 = "setprop r' ''is_elif'' (PBool True) a4"
  let ?k = "suffix r True"
  let ?f = "and_then (\<lambda>a. (Inr (truthy (node_prop r ''is_elif'' a)), a))
              (\<lambda>is_elif.
                 next_do (token_only (if is_elif then ''elif'' else ''if''))
                (next_do (a_visit sm test)
                (next_do (attr r (node_fields ?out) ''testsuffix'' [Ws False, Tok '':'', Ws False] [])
                (next_do (visit_stmts (a_visit sm) body)
                         (visit_orelse (a_visit sm) r [?nd])))))"
  have o: "a_visit sm ?out a = next_do ?f ?k a0"
    using pre by (simp add: spaced_def next_do_def and_then_def)
  have f: "?f a0 = visit_orelse (a_visit sm) r [?nd] a4"
    using kw tst tsf bdy by (simp add: next_do_def and_then_def del: a_visit.simps visit_orelse.simps)
  from nxt have chk: "check_is_elif a4 = (Inr (tok_text tok = ''elif''), a4)"
    by (simp add: check_is_elif_def)
  have 1: "a_visit sm ?out a =
           (if tok_text tok = ''elif'' then next_do (a_visit sm ?nd) ?k ?a5
            else next_do (attr r no_fields ''elseprefix'' [Ws False] [])
                (next_do (token_only ''else'')
                (next_do (attr r no_fields ''elsesuffix'' [Ws False, Tok '':'', Ws False] [])
                (next_do (a_visit sm ?nd) ?k))) a4)"
  proof (cases "tok_text tok = ''elif''")
    case True
    have "visit_orelse (a_visit sm) r [?nd] a4 = a_visit sm ?nd ?a5"
      using chk True by (simp add: and_then_def next_do_def modify_def del: a_visit.simps)
    with f have "?f a0 = a_visit sm ?nd ?a5" by simp
    from next_do_from[where f = ?f and a = a0 and g = "a_visit sm ?nd" and b = ?a5 and k = ?k, OF this]
      o True show ?thesis by simp
  next
    case False
    have "visit_orelse (a_visit sm) r [?nd] a4 = else_block (a_visit sm) r [?nd] a4"
      using chk False by (simp add: and_then_def del: a_visit.simps)
    with f have "?f a0 = else_block (a_visit sm) r [?nd] a4" by simp
    from next_do_from[where f = ?f and a = a0 and g = "else_block (a_visit sm) r [?nd]" and b = a4
        and k = ?k, OF this] o
    have "a_visit sm ?out a = next_do (else_block (a_visit sm) r [?nd]) ?k a4"
      by simp
    also have "next_do (else_block (a_visit sm) r [?nd]) ?k =
               next_do (attr r no_fields ''elseprefix'' [Ws False] [])
                (next_do (token_only ''else'')
                (next_do (attr r no_fields ''elsesuffix'' [Ws False, Tok '':'', Ws False] [])
                (next_do (a_visit sm ?nd) ?k)))"
      by (simp add: else_block_def next_do_assoc next_do_done del: a_visit.simps)
    finally show ?thesis using False by simp
  qed
  have 2: "tokens ?a5 = tokens a4" by (simp add: setprop_def)
  obtain x b where p: "prefix r' ?a5 = (x, b)" by (cases "prefix r' ?a5")
  have keep: "node_props b (r', ''is_elif'') = node_props ?a5 (r', ''is_elif'')"
    using p unfolding prefix_def by (rule attr_other) simp_all
  then have mark: "truthy (node_prop r' ''is_elif'' b)" by (simp add: node_prop_def setprop_def)
  have 3: "a_visit sm ?nd ?a5 =
           spaced r'
             (next_do (token_only ''elif'')
             (next_do (a_visit sm test')
             (next_do (attr r' (node_fields ?nd) ''testsuffix'' [Ws False, Tok '':'', Ws False] [])
             (next_do (visit_stmts (a_visit sm) body')
                      (visit_orelse (a_visit sm) r' orelse'))))) ?a5"
  proof (cases x)
    case (Inl e)
    with p show ?thesis by (simp add: spaced_def next_do_def and_then_def)
  next
    case (Inr u)
    with p mark show ?thesis by (simp add: spaced_def next_do_def and_then_def)
  qed
  from 1 2 3 show ?thesis by (intro conjI)
qed

theorem elif_decided_by_next_keyword_witness:
  "(\<exists>a0 a1 a2 a3 a4.
      prefix 1 (new_AstAnnotator if_elif_tokens) = (Inr (), a0) \<and>
      token_only (if truthy (node_prop 1 ''is_elif'' a0) then ''elif'' else ''if'') a0 = (Inr (), a1) \<and>
      a_visit no_scope (Name 2 ''a'' (Load 9)) a1 = (Inr (), a2) \<and>
      attr 1 (node_fields outer_if) ''testsuffix'' [Ws False, Tok '':'', Ws False] [] a2 = (Inr (), a3) \<and>
      visit_stmts (a_visit no_scope) [Pass 3] a3 = (Inr (), a4) \<and>
      tokens_next_name (tokens a4) = Inr (tk NAME ''elif'') \<and>
      a_visit no_scope outer_if (new_AstAnnotator if_elif_tokens) =
        next_do (a_visit no_scope inner_if) (suffix 1 True) (setprop 4 ''is_elif'' (PBool True) a4)) \<and>
   fst (a_visit no_scope outer_if (new_AstAnnotator if_elif_tokens)) = Inr () \<and>
   node_prop 4 ''is_elif'' (snd (a_visit no_scope outer_if (new_AstAnnotator if_elif_tokens)))
     = Some (PBool True) \<and>
   node_prop 1 ''elsesuffix'' (snd (a_visit no_scope outer_if (new_AstAnnotator if_elif_tokens))) = None \<and>
   fst (a_visit no_scope outer_if (new_AstAnnotator if_else_tokens)) = Inr () \<and>
   node_prop 4 ''is_elif'' (snd (a_visit no_scope outer_if (new_AstAnnotator if_else_tokens))) = None \<and>
   node_prop 1 ''elsesuffix'' (snd (a_visit no_scope outer_if (new_AstAnnotator if_else_tokens)))
     = Some (PStr ('':'' @ [CHR 0x0A] @ ''  ''))"
proof -
  let ?a = "new_AstAnnotator if_elif_tokens"
  define a0 where "a0 = snd (prefix 1 ?a)"
  define a1 where "a1 = snd (token_only (if truthy (node_prop 1 ''is_elif'' a0) then ''elif'' else ''if'') a0)"
  define a2 where "a2 = snd (a_visit no_scope (Name 2 ''a'' (Load 9)) a1)"
  define a3 where "a3 = snd (attr 1 (node_fields outer_if) ''testsuffix'' [Ws False, Tok '':'', Ws False] [] a2)"
  define a4 where "a4 = snd (visit_stmts (a_visit no_scope) [Pass 3] a3)"
  note defs = a4_def a3_def a2_def a1_def a0_def if_elif_tokens_def outer_if_def inner_if_def
  have h0: "prefix 1 ?a = (Inr (), a0)"
    by (simp add: a0_def prod_eq_iff if_elif_tokens_def ann_eval)
  have h1: "token_only (if truthy (node_prop 1 ''is_elif'' a0) then ''elif'' else ''if'') a0 = (Inr (), a1)"
    by (simp add: a1_def a0_def prod_eq_iff if_elif_tokens_def ann_eval)
  have h2: "a_visit no_scope (Name 2 ''a'' (Load 9)) a1 = (Inr (), a2)"
    by (simp add: a2_def a1_def a0_def prod_eq_iff if_elif_tokens_def ann_eval)
  have h3: "attr 1 (node_fields (If_stmt 1 (Name 2 ''a'' (Load 9)) [Pass 3]
                [If_stmt 4 (Name 5 ''b'' (Load 9)) [Pass 6] []]))
              ''testsuffix'' [Ws False, Tok '':'', Ws False] [] a2 = (Inr (), a3)"
    by (simp add: defs prod_eq_iff ann_eval)
  have h4: "visit_stmts (a_visit no_scope) [Pass 3] a3 = (Inr (), a4)"
    by (simp add: defs prod_eq_iff ann_eval)
  have h5: "tokens_next_name (tokens a4) = Inr (tk NAME ''elif'')"
    by (simp add: defs ann_eval)
  from conjunct1[OF elif_decided_by_next_keyword[OF h0 h1 h2 h3 h4 h5]]
  have e: "a_visit no_scope outer_if ?a =
           next_do (a_visit no_scope inner_if) (suffix 1 True) (setprop 4 ''is_elif'' (PBool True) a4)"
    by (simp add: outer_if_def inner_if_def tk_def del: a_visit.simps)
  have r1: "fst (a_visit no_scope outer_if ?a) = Inr ()"
    unfolding e by (simp add: defs ann_eval)
  have r2: "node_prop 4 ''is_elif'' (snd (a_visit no_scope outer_if ?a)) = Some (PBool True)"
    unfolding e by (simp add: defs ann_eval)
  have r3: "node_prop 1 ''elsesuffix'' (snd (a_visit no_scope outer_if ?a)) = None"
    unfolding e by (simp add: defs ann_eval)
  from h0 h1 h2 h3[folded outer_if_def] h4 h5 e
  have "\<exists>a0 a1 a2 a3 a4.
      prefix 1 ?a = (Inr (), a0) \<and>
      token_only (if truthy (node_prop 1 ''is_elif'' a0) then ''elif'' else ''if'') a0 = (Inr (), a1) \<and>
      a_visit no_scope (Name 2 ''a'' (Load 9)) a1 = (Inr (), a2) \<and>
      attr 1 (node_fields outer_if) ''testsuffix'' [Ws False, Tok '':'', Ws False] [] a2 = (Inr (), a3) \<and>
      visit_stmts (a_visit no_scope) [Pass 3] a3 = (Inr (), a4) \<and>
      tokens_next_name (tokens a4) = Inr (tk NAME ''elif'') \<and>
      a_visit no_scope outer_if ?a =
        next_do (a_visit no_scope inner_if) (suffix 1 True) (setprop 4 ''is_elif'' (PBool True) a4)"
    by blast
  moreover have "fst (a_visit no_scope outer_if (new_AstAnnotator if_else_tokens)) = Inr ()"
    by (simp add: if_else_tokens_def outer_if_def ann_eval)
  moreover have "node_prop 4 ''is_elif'' (snd (a_visit no_scope outer_if (new_AstAnnotator if_else_tokens))) = None"
    by (simp add: if_else_tokens_def outer_if_def ann_eval)
  moreover have "node_prop 1 ''elsesuffix'' (snd (a_visit no_scope outer_if (new_AstAnnotator if_else_tokens)))
     = Some (PStr ('':'' @ [CHR 0x0A] @ ''  ''))"
    by (simp add: if_else_tokens_def outer_if_def ann_eval)
  ultimately show ?thesis using r1 r2 r3 by (intro conjI)
qed

subsection \<open>The snapshot of the dependencies\<close>

text \<open>
  Claim C8. A slot annotated with declared dependencies (the slot \<^verbatim>\<open>content\<close> of a
  \<^verbatim>\<open>Num\<close> node with the dependency \<^verbatim>\<open>n\<close>, the slot \<^verbatim>\<open>module\<close> of an \<^verbatim>\<open>ImportFrom\<close> with
  \<^verbatim>\<open>level\<close> and \<^verbatim>\<open>module\<close>) stores, beside the captured text, the value that each
  dependency has on the node when the text is captured, under the name of the dependency
  followed by \<^verbatim>\<open>__src\<close> (the name of the slot is none of these names). The record is
  valid for reuse exactly when the values of the dependencies on the node equal the
  snapshot: the generator replays the captured text then, and gives the default
  rendering otherwise. When the parts of the slot are all parsed, and there is one at
  least, the slot holds a captured text.
\<close>

theorem dependency_snapshot:
  assumes run: "attr r flds nm vals deps a = (res, a')"
      and slot: "\<forall>dep \<in> set deps. nm \<noteq> dep @ ''__src''"
  shows "(\<forall>dep \<in> set deps. node_prop r (dep @ ''__src'') a' = Some (flds dep)) \<and>
         (\<forall>flds'. snapshot_valid (node_props a') r flds' deps \<longleftrightarrow> (\<forall>dep \<in> set deps. flds' dep = flds dep)) \<and>
         (\<forall>flds' dflt. codegen_attr (node_props a') r flds' nm deps dflt =
            (if (\<exists>s. node_props a' (r, nm) = Some (PStr s)) \<and> (\<forall>dep \<in> set deps. flds' dep = flds dep)
             then prop_text r nm a' else dflt)) \<and>
         (res = Inr () \<and> vals \<noteq> [] \<longrightarrow> (\<exists>s. node_props a' (r, nm) = Some (PStr s)))"
proof -
  from run have parts: "attr_parts r nm vals (attr_deps r flds deps a) = (res, a')"
    by (simp add: attr_def next_do_def and_then_def modify_def)
  have snap: "node_props a' (r, dep @ ''__src'') = Some (flds dep)" if "dep \<in> set deps" for dep
  proof -
    from that slot have "(r, dep @ ''__src'') \<noteq> (r, nm)" by auto
    from attr_parts_other[OF parts this] attr_deps_snapshot[OF that] show ?thesis by simp
  qed
  have valid: "snapshot_valid (node_props a') r flds' deps \<longleftrightarrow> (\<forall>dep \<in> set deps. flds' dep = flds dep)" for flds'
    by (auto simp: snapshot_valid_def list_all_iff snap)
  have gen: "codegen_attr (node_props a') r flds' nm deps dflt =
            (if (\<exists>s. node_props a' (r, nm) = Some (PStr s)) \<and> (\<forall>dep \<in> set deps. flds' dep = flds dep)
             then prop_text r nm a' else dflt)" for flds' dflt
    unfolding codegen_attr_def valid prop_text_def
    by (auto split: option.splits pyval.splits)
  have captured: "\<exists>s. node_props a' (r, nm) = Some (PStr s)" if "res = Inr ()" "vals \<noteq> []"
    using attr_parts_text[of r nm vals _ a'] parts that by simp
  from snap valid gen captured show ?thesis by (simp add: node_prop_def)
qed

theorem dependency_snapshot_witness:
  "''content'' \<noteq> ''n'' @ ''__src'' \<and>
   node_prop 2 ''n__src''
     (snd (attr 2 (node_fields (Num 2 16)) ''content'' [NextNumber] [''n''] (new_AstAnnotator num_tokens)))
     = Some (PInt 16) \<and>
   codegen_attr
     (node_props (snd (attr 2 (node_fields (Num 2 16)) ''content'' [NextNumber] [''n''] (new_AstAnnotator num_tokens))))
     2 (node_fields (Num 2 16)) ''content'' [''n''] ''16'' = ''0x10'' \<and>
   codegen_attr
     (node_props (snd (attr 2 (node_fields (Num 2 16)) ''content'' [NextNumber] [''n''] (new_AstAnnotator num_tokens))))
     2 (node_fields (Num 2 17)) ''content'' [''n''] ''17'' = ''17''"
proof -
  define res where "res = fst (attr 2 (node_fields (Num 2 16)) ''content'' [NextNumber] [''n''] (new_AstAnnotator num_tokens))"
  define a' where "a' = snd (attr 2 (node_fields (Num 2 16)) ''content'' [NextNumber] [''n''] (new_AstAnnotator num_tokens))"
  have run: "attr 2 (node_fields (Num 2 16)) ''content'' [NextNumber] [''n''] (new_AstAnnotator num_tokens) = (res, a')"
    by (simp add: res_def a'_def)
  have slot: "\<forall>dep \<in> set [''n'']. ''content'' \<noteq> dep @ ''__src''" by simp
  note t = dependency_snapshot[OF run slot]
  from conjunct1[OF t] have 1: "node_prop 2 ''n__src'' a' = Some (PInt 16)"
    by (simp add: lookup_field_def)
  have captured: "prop_text 2 ''content'' a' = ''0x10''" and stored: "node_props a' (2, ''content'') = Some (PStr ''0x10'')"
    by (simp_all add: a'_def num_tokens_def ann_eval)
  from conjunct1[OF conjunct2[OF conjunct2[OF t]]]
  have g: "codegen_attr (node_props a') 2 flds' ''content'' [''n''] dflt =
            (if (\<exists>s. node_props a' (2, ''content'') = Some (PStr s)) \<and>
                (\<forall>dep \<in> set [''n'']. flds' dep = node_fields (Num 2 16) dep)
             then prop_text 2 ''content'' a' else dflt)" for flds' dflt
    by blast
  have 2: "codegen_attr (node_props a') 2 (node_fields (Num 2 16)) ''content'' [''n''] ''16'' = ''0x10''"
    unfolding g by (simp add: captured stored)
  have 3: "codegen_attr (node_props a') 2 (node_fields (Num 2 17)) ''content'' [''n''] ''17'' = ''17''"
    unfolding g by (simp add: lookup_field_def)
  from 1 2 3 show ?thesis unfolding a'_def by simp
qed

subsection \<open>A token that does not match\<close>




subsection \<open>Statements the annotator refuses\<close>

text \<open>
  \<^verbatim>\<open>visit_Exec\<close> raises \<^verbatim>\<open>NotImplementedError\<close>, and the loops over the statement lists
  visit every statement: the annotation of a tree with an \<^verbatim>\<open>exec\<close> statement among its
  statements never returns normally, whatever the tokens.
\<close>

lemma exec_never_annotated:
  "Exec r b g l \<in> stmts_of nd \<Longrightarrow> fst (a_visit sm nd a) \<noteq> Inr ()"
proof (induction sm nd arbitrary: a rule: a_visit.induct)
  case (1 sm r' body)
  show ?case
  proof
    assume "fst (a_visit sm (Module r' body) a) = Inr ()"
    then obtain a' where s: "a_visit sm (Module r' body) a = (Inr (), a')"
      by (cases "a_visit sm (Module r' body) a") auto
    from "1.prems" obtain s' where m: "s' \<in> set body" and e: "Exec r b g l \<in> stmts_of s'" by auto
    from s obtain a1 a2 where "visit_stmts (a_visit sm) body a1 = (Inr (), a2)"
      by (auto simp: spaced_def next_do_Inr)
    from visit_stmts_Inr[OF this m] obtain a3 a4 where "a_visit sm s' a3 = (Inr (), a4)" by blast
    with "1.IH"[OF m e, of a3] show False by simp
  qed
next
  case (9 sm r' nm args body decorator_list returns)
  show ?case
  proof
    assume "fst (a_visit sm (FunctionDef r' nm args body decorator_list returns) a) = Inr ()"
    then obtain a' where s: "a_visit sm (FunctionDef r' nm args body decorator_list returns) a = (Inr (), a')"
      by (cases "a_visit sm (FunctionDef r' nm args body decorator_list returns) a") auto
    from "9.prems" obtain s' where m: "s' \<in> set body" and e: "Exec r b g l \<in> stmts_of s'" by auto
    from s obtain a1 a2 where "visit_stmts (a_visit sm) body a1 = (Inr (), a2)"
      by (auto simp: spaced_def next_do_Inr)
    from visit_stmts_Inr[OF this m] obtain a3 a4 where "a_visit sm s' a3 = (Inr (), a4)" by blast
    with "9.IH"(4)[OF m e, of a3] show False by simp
  qed
next
  case (12 sm r' nm bases body decorator_list)
  show ?case
  proof
    assume "fst (a_visit sm (ClassDef r' nm bases body decorator_list) a) = Inr ()"
    then obtain a' where s: "a_visit sm (ClassDef r' nm bases body decorator_list) a = (Inr (), a')"
      by (cases "a_visit sm (ClassDef r' nm bases body decorator_list) a") auto
    from "12.prems" obtain s' where m: "s' \<in> set body" and e: "Exec r b g l \<in> stmts_of s'" by auto
    from s obtain a1 a2 where "visit_stmts (a_visit sm) body a1 = (Inr (), a2)"
      by (auto simp: spaced_def next_do_Inr)
    from visit_stmts_Inr[OF this m] obtain a3 a4 where "a_visit sm s' a3 = (Inr (), a4)" by blast
    with "12.IH"(3)[OF m e, of a3] show False by simp
  qed
next
  case (13 sm r' test body orelse)
  show ?case
  proof
    assume "fst (a_visit sm (If_stmt r' test body orelse) a) = Inr ()"
    then obtain a' where s: "a_visit sm (If_stmt r' test body orelse) a = (Inr (), a')"
      by (cases "a_visit sm (If_stmt r' test body orelse) a") auto
    from s obtain a1 a2 a3 where vb: "visit_stmts (a_visit sm) body a1 = (Inr (), a2)"
      and vo: "visit_orelse (a_visit sm) r' orelse a2 = (Inr (), a3)"
      by (auto simp: spaced_def next_do_Inr and_then_Inr)
    from "13.prems" consider
      (b) s' where "s' \<in> set body" "Exec r b g l \<in> stmts_of s'"
      | (o) s' where "s' \<in> set orelse" "Exec r b g l \<in> stmts_of s'" by auto
    then show False
    proof cases
      case b
      from visit_stmts_Inr[OF vb b(1)] obtain a4 a5 where "a_visit sm s' a4 = (Inr (), a5)" by blast
      with "13.IH"(2)[OF b(1) b(2), of a4] show False by simp
    next
      case o
      from visit_orelse_Inr[OF vo o(1)] obtain a4 a5 where "a_visit sm s' a4 = (Inr (), a5)" by blast
      with "13.IH"(3)[OF o(1) o(2), of a4] show False by simp
    qed
  qed
next
  case (15 sm r' body globals locals)
  show ?case
    by (auto simp: spaced_def next_do_def and_then_def raise_def split: prod.splits sum.splits)
qed simp_all

lemma exec_source_refused:
  "fst (annotate no_scope exec_tokens exec_tree) = Inl NotImplementedError"
  by (simp add: exec_tokens_def exec_tree_def ann_eval)

end
